theory Spec2Isabelle
  imports Main "HOL-Library.Word"
begin

unbundle bit_operations_syntax

section \<open>utils/base62.go: the base-62 encoder\<close>

text \<open>
  Go's \<open>uint64\<close> is \<open>64 word\<close>: \<open>+\<close> and \<open>*\<close> wrap modulo \<open>2 ^ 64\<close>, \<open>div\<close> and
  \<open>mod\<close> are the unsigned operations. A Go string is a sequence of bytes, here a
  \<open>string\<close> (a list of \<open>char\<close>, one per byte); \<open>of_char\<close> reads the byte's value.
  \<open>encoded[i]\<close> reads a byte, \<open>range\<close> walks runes.
\<close>

type_synonym uint64 = "64 word"

definition base62Chars :: string where
  "base62Chars = ''0123456789abcdefghijklmnopqrstuvwxyzABCDEFGHIJKLMNOPQRSTUVWXYZ''"

definition base :: uint64 where
  "base = 62"

text \<open>
  The loop \<open>for num > 0 { result.WriteByte(base62Chars[num%base]); num /= base }\<close>
  of \<open>EncodeBase62\<close>; \<open>result\<close> is the content of the \<open>strings.Builder\<close>.
\<close>

function encode_loop :: "uint64 \<Rightarrow> string \<Rightarrow> string" where
  "encode_loop num result =
     (if num > 0
      then encode_loop (num div base) (result @ [base62Chars ! unat (num mod base)])
      else result)"
  by pat_completeness auto
termination
proof (relation "measure (\<lambda>(num, result). unat num)")
  show "wf (measure (\<lambda>(num, result). unat num))"
    by simp
next
  fix num :: uint64 and result :: string
  assume "0 < num"
  then have "0 < unat num"
    by (simp add: word_greater_zero_iff unat_gt_0)
  then have "unat num div 62 < unat num"
    by simp
  then show "((num div base, result @ [base62Chars ! unat (num mod base)]), (num, result))
      \<in> measure (\<lambda>(num, result). unat num)"
    by (simp add: base_def unat_div)
qed

declare encode_loop.simps [simp del]

text \<open>
  The in-place reversal
  \<open>for i, j := 0, len(runes)-1; i < j; i, j = i+1, j-1 { runes[i], runes[j] = runes[j], runes[i] }\<close>.
  The indices are Go \<open>int\<close>s (\<open>j\<close> starts at \<open>-1\<close> on an empty slice). Both
  right-hand sides of the swap are read before either element is written. The bytes
  written by \<open>encode_loop\<close> are ASCII, so each rune of \<open>[]rune(encoded)\<close> is one byte
  and \<open>string(runes)\<close> gives the same bytes back.
\<close>

function reverse_runes :: "char list \<Rightarrow> int \<Rightarrow> int \<Rightarrow> char list" where
  "reverse_runes runes i j =
     (if i < j
      then reverse_runes (runes[nat i := runes ! nat j, nat j := runes ! nat i]) (i + 1) (j - 1)
      else runes)"
  by pat_completeness auto
termination
  by (relation "measure (\<lambda>(runes, i, j). nat (j - i))") auto

declare reverse_runes.simps [simp del]

definition EncodeBase62 :: "uint64 \<Rightarrow> string" where
  "EncodeBase62 num =
     (if num = 0 then ''0''
      else let encoded = encode_loop num [];
               runes = encoded
           in reverse_runes runes 0 (int (length runes) - 1))"

text \<open>
  The \<open>switch\<close> of \<open>DecodeBase62\<close> on one byte: \<open>Some value\<close> for the three ranges,
  \<open>None\<close> for the \<open>default\<close> branch. The byte is compared and subtracted as a natural
  number; inside each guard the \<open>uint8\<close> subtraction of the source does not wrap.
\<close>

definition char_value :: "char \<Rightarrow> uint64 option" where
  "char_value char =
     (let c = (of_char char :: nat) in
      if of_char (CHR ''0'') \<le> c \<and> c \<le> of_char (CHR ''9'')
        then Some (of_nat (c - of_char (CHR ''0'')))
      else if of_char (CHR ''a'') \<le> c \<and> c \<le> of_char (CHR ''z'')
        then Some (of_nat (c - of_char (CHR ''a'')) + 10)
      else if of_char (CHR ''A'') \<le> c \<and> c \<le> of_char (CHR ''Z'')
        then Some (of_nat (c - of_char (CHR ''A'')) + 36)
      else None)"

text \<open>
  The loop \<open>for i := len(encoded) - 1; i >= 0; i--\<close>. The second argument is
  \<open>i + 1\<close>, the number of bytes still to read, so that \<open>Suc i\<close> reads
  \<open>encoded[i]\<close> and \<open>0\<close> is the loop's exit. The \<open>default\<close> branch leaves the
  function with \<open>0\<close>. \<open>pow\<close> is the source's \<open>power\<close>.
\<close>

fun decode_loop :: "string \<Rightarrow> nat \<Rightarrow> uint64 \<Rightarrow> uint64 \<Rightarrow> uint64" where
  "decode_loop encoded 0 result pow = result"
| "decode_loop encoded (Suc i) result pow =
     (case char_value (encoded ! i) of
        None \<Rightarrow> 0
      | Some v \<Rightarrow> decode_loop encoded i (result + v * pow) (pow * base))"

definition DecodeBase62 :: "string \<Rightarrow> uint64" where
  "DecodeBase62 encoded = decode_loop encoded (length encoded) 0 1"

text \<open>
  \<open>for _, char := range s\<close> walks the runes of \<open>s\<close>: a byte below \<open>0x80\<close> is a rune
  of its own; from any other byte Go's \<open>decoderune\<close> reads a UTF-8 sequence of two,
  three or four bytes and gives its code point and width, or \<open>runeError\<close> and width
  1 when the bytes are no well-formed, shortest-form sequence. Bytes and runes are
  natural numbers here; \<open>s\<close> is the string from the position of the loop on.
\<close>

definition runeError :: nat where
  "runeError = 0xFFFD"

definition decoderune :: "nat list \<Rightarrow> nat \<times> nat" where
  "decoderune s =
     (if 0xC0 \<le> s ! 0 \<and> s ! 0 < 0xE0 then
        (if length s > 1 \<and> (0x80 \<le> s ! 1 \<and> s ! 1 \<le> 0xBF) then
           (let r = push_bit 6 (s ! 0 AND 0x1F) OR (s ! 1 AND 0x3F)
            in if 0x7F < r then (r, 2) else (runeError, 1))
         else (runeError, 1))
      else if 0xE0 \<le> s ! 0 \<and> s ! 0 < 0xF0 then
        (if length s > 2 \<and> (0x80 \<le> s ! 1 \<and> s ! 1 \<le> 0xBF) \<and> (0x80 \<le> s ! 2 \<and> s ! 2 \<le> 0xBF) then
           (let r = push_bit 12 (s ! 0 AND 0x0F) OR push_bit 6 (s ! 1 AND 0x3F) OR (s ! 2 AND 0x3F)
            in if 0x7FF < r \<and> \<not> (0xD800 \<le> r \<and> r \<le> 0xDFFF) then (r, 3) else (runeError, 1))
         else (runeError, 1))
      else if 0xF0 \<le> s ! 0 \<and> s ! 0 < 0xF8 then
        (if length s > 3 \<and> (0x80 \<le> s ! 1 \<and> s ! 1 \<le> 0xBF) \<and> (0x80 \<le> s ! 2 \<and> s ! 2 \<le> 0xBF)
            \<and> (0x80 \<le> s ! 3 \<and> s ! 3 \<le> 0xBF) then
           (let r = push_bit 18 (s ! 0 AND 0x07) OR push_bit 12 (s ! 1 AND 0x3F)
                      OR push_bit 6 (s ! 2 AND 0x3F) OR (s ! 3 AND 0x3F)
            in if 0xFFFF < r \<and> r \<le> 0x10FFFF then (r, 4) else (runeError, 1))
         else (runeError, 1))
      else (runeError, 1))"

text \<open>
  The runes that the \<open>range\<close> loop yields, in order. After a rune of width \<open>w\<close> the
  loop goes on \<open>w\<close> bytes further, that is \<open>w - 1\<close> bytes after the first one.
\<close>

fun range_runes :: "nat list \<Rightarrow> nat list" where
  "range_runes [] = []"
| "range_runes (b # rest) =
     (if b < 0x80 then b # range_runes rest
      else fst (decoderune (b # rest)) # range_runes (drop (snd (decoderune (b # rest)) - 1) rest))"

text \<open>The test of \<open>IsValidBase62\<close> on one rune, and its loop over the runes.\<close>

definition is_base62_rune :: "nat \<Rightarrow> bool" where
  "is_base62_rune char \<longleftrightarrow>
     (of_char (CHR ''0'') \<le> char \<and> char \<le> of_char (CHR ''9'')) \<or>
     (of_char (CHR ''a'') \<le> char \<and> char \<le> of_char (CHR ''z'')) \<or>
     (of_char (CHR ''A'') \<le> char \<and> char \<le> of_char (CHR ''Z''))"

fun valid_loop :: "nat list \<Rightarrow> bool" where
  "valid_loop [] = True"
| "valid_loop (char # rest) = (if \<not> is_base62_rune char then False else valid_loop rest)"

definition IsValidBase62 :: "string \<Rightarrow> bool" where
  "IsValidBase62 s =
     (if length s = 0 then False else valid_loop (range_runes (map of_char s)))"

section \<open>models: the stored record and the service's answer\<close>

text \<open>\<open>time.Time\<close> is an abstract instant; \<open>time.Now()\<close> is an input of \<open>Save\<close>.\<close>

type_synonym Time = int

record URL =
  ID :: uint64
  OriginalURL :: string
  ShortCode :: string
  CreatedAt :: Time
  AccessCount :: uint64

record URLInfoResponse =
  info_ID :: uint64
  info_OriginalURL :: string
  info_ShortCode :: string
  info_ShortURL :: string
  info_CreatedAt :: Time
  info_AccessCount :: uint64

record Config =
  Port :: string
  BaseURL :: string
  LogLevel :: string

section \<open>storage: the in-memory store\<close>

text \<open>
  The error values of the packages \<open>storage\<close> and \<open>services\<close>; each
  \<open>errors.New\<close> is a value of its own, so the two \<open>ErrURLNotFound\<close> differ.
  \<open>panic_nil_pointer\<close> stands for the run-time panic of reading a field through a
  nil pointer.
\<close>

datatype error =
    storage_ErrURLNotFound
  | storage_ErrURLExists
  | services_ErrInvalidURL
  | services_ErrURLNotFound
  | services_ErrInvalidShortCode
  | panic_nil_pointer

text \<open>
  The three maps hold pointers \<open>*models.URL\<close>, and one \<open>URL\<close> object is shared by
  all three. A pointer is an address into \<open>heap\<close>, the objects allocated by \<open>Save\<close>
  in allocation order; \<open>&models.URL{...}\<close> takes the next free address. A nil pointer
  or a nil \<open>error\<close> is \<open>None\<close>. Every operation holds \<open>mutex\<close> for its whole body,
  so an operation is one step on the store and the lock is not part of the state.
\<close>

type_synonym url_ptr = nat

record MemoryStorage =
  heap :: "URL list"
  urls :: "string \<rightharpoonup> url_ptr"
  urlsByID :: "uint64 \<rightharpoonup> url_ptr"
  urlsByOrig :: "string \<rightharpoonup> url_ptr"
  nextID :: uint64

definition NewMemoryStorage :: MemoryStorage where
  "NewMemoryStorage =
     \<lparr>heap = [], urls = Map.empty, urlsByID = Map.empty, urlsByOrig = Map.empty, nextID = 1\<rparr>"

definition Save :: "string \<Rightarrow> Time \<Rightarrow> MemoryStorage \<Rightarrow> (url_ptr option \<times> error option) \<times> MemoryStorage" where
  "Save originalURL now s =
     (case urlsByOrig s originalURL of
        Some existingURL \<Rightarrow> ((Some existingURL, None), s)
      | None \<Rightarrow>
          let obj = \<lparr>ID = nextID s, OriginalURL = originalURL,
                     ShortCode = EncodeBase62 (nextID s), CreatedAt = now, AccessCount = 0\<rparr>;
              url = length (heap s)
          in ((Some url, None),
              s\<lparr>heap := heap s @ [obj],
                urls := (urls s)(ShortCode obj \<mapsto> url),
                urlsByID := (urlsByID s)(ID obj \<mapsto> url),
                urlsByOrig := (urlsByOrig s)(originalURL \<mapsto> url),
                nextID := nextID s + 1\<rparr>))"

definition GetByShortCode :: "string \<Rightarrow> MemoryStorage \<Rightarrow> url_ptr option \<times> error option" where
  "GetByShortCode shortCode s =
     (case urls s shortCode of
        None \<Rightarrow> (None, Some storage_ErrURLNotFound)
      | Some url \<Rightarrow> (Some url, None))"

definition GetByID :: "uint64 \<Rightarrow> MemoryStorage \<Rightarrow> url_ptr option \<times> error option" where
  "GetByID id' s =
     (case urlsByID s id' of
        None \<Rightarrow> (None, Some storage_ErrURLNotFound)
      | Some url \<Rightarrow> (Some url, None))"

definition IncrementAccessCount :: "string \<Rightarrow> MemoryStorage \<Rightarrow> error option \<times> MemoryStorage" where
  "IncrementAccessCount shortCode s =
     (case urls s shortCode of
        None \<Rightarrow> (Some storage_ErrURLNotFound, s)
      | Some url \<Rightarrow>
          (None,
           s\<lparr>heap := (heap s)[url := (heap s ! url)\<lparr>AccessCount := AccessCount (heap s ! url) + 1\<rparr>]\<rparr>))"

text \<open>
  \<open>GetStats\<close> returns a \<open>map[string]interface{}\<close>: the keys it has and the dynamic
  value under each. \<open>len(s.urls)\<close> is an \<open>int\<close>, \<open>s.nextID\<close> a \<open>uint64\<close>.
\<close>

datatype stat_value = IntVal int | Uint64Val uint64

definition GetStats :: "MemoryStorage \<Rightarrow> (string \<rightharpoonup> stat_value)" where
  "GetStats s =
     [''total_urls'' \<mapsto> IntVal (int (card (dom (urls s)))),
      ''next_id'' \<mapsto> Uint64Val (nextID s)]"

section \<open>services: lookups through the service layer\<close>

text \<open>
  The receiver's \<open>storage\<close> is the store passed in and returned, its \<open>config\<close> a
  parameter. \<open>strings.TrimRight(s, "/")\<close> drops the trailing slashes. The error of
  \<open>IncrementAccessCount\<close> is dropped by \<open>GetOriginalURL\<close>, as its empty \<open>if\<close> body
  does.
\<close>

definition TrimRight_slash :: "string \<Rightarrow> string" where
  "TrimRight_slash str = rev (dropWhile (\<lambda>c. c = CHR ''/'') (rev str))"

definition buildShortURL :: "Config \<Rightarrow> string \<Rightarrow> string" where
  "buildShortURL config shortCode =
     (let baseURL = TrimRight_slash (BaseURL config) in baseURL @ ''/'' @ shortCode)"

definition GetOriginalURL :: "string \<Rightarrow> MemoryStorage \<Rightarrow> (string \<times> error option) \<times> MemoryStorage" where
  "GetOriginalURL shortCode s =
     (if \<not> IsValidBase62 shortCode then (([], Some services_ErrInvalidShortCode), s)
      else case GetByShortCode shortCode s of
        (urlRecord, Some err) \<Rightarrow>
          (if err = storage_ErrURLNotFound then (([], Some services_ErrURLNotFound), s)
           else (([], Some err), s))
      | (urlRecord, None) \<Rightarrow>
          (let (err, s) = IncrementAccessCount shortCode s
           in (case urlRecord of
                 None \<Rightarrow> (([], Some panic_nil_pointer), s)
               | Some url \<Rightarrow> ((OriginalURL (heap s ! url), None), s))))"

definition GetURLInfo :: "Config \<Rightarrow> string \<Rightarrow> MemoryStorage \<Rightarrow> URLInfoResponse option \<times> error option" where
  "GetURLInfo config shortCode s =
     (if \<not> IsValidBase62 shortCode then (None, Some services_ErrInvalidShortCode)
      else case GetByShortCode shortCode s of
        (urlRecord, Some err) \<Rightarrow>
          (if err = storage_ErrURLNotFound then (None, Some services_ErrURLNotFound)
           else (None, Some err))
      | (None, None) \<Rightarrow> (None, Some panic_nil_pointer)
      | (Some url, None) \<Rightarrow>
          let r = heap s ! url
          in (Some \<lparr>info_ID = ID r, info_OriginalURL = OriginalURL r,
                    info_ShortCode = ShortCode r,
                    info_ShortURL = buildShortURL config (ShortCode r),
                    info_CreatedAt = CreatedAt r, info_AccessCount = AccessCount r\<rparr>, None))"

section \<open>Runs of operations and the store's invariant\<close>

text \<open>The store's mutating and reading operations, and a run of them on a store.\<close>

datatype op =
    OpSave string Time
  | OpGetByShortCode string
  | OpGetByID uint64
  | OpIncrementAccessCount string

fun apply_op :: "op \<Rightarrow> MemoryStorage \<Rightarrow> MemoryStorage" where
  "apply_op (OpSave originalURL now) s = snd (Save originalURL now s)"
| "apply_op (OpGetByShortCode shortCode) s = s"
| "apply_op (OpGetByID id') s = s"
| "apply_op (OpIncrementAccessCount shortCode) s = snd (IncrementAccessCount shortCode s)"

definition run :: "op list \<Rightarrow> MemoryStorage \<Rightarrow> MemoryStorage" where
  "run ops s = fold apply_op ops s"

text \<open>
  The ids of the records that a sequence of \<open>Save\<close> calls creates, in order of
  creation: a call on a URL that is already stored creates nothing.
\<close>

fun created_ids :: "(string \<times> Time) list \<Rightarrow> MemoryStorage \<Rightarrow> uint64 list" where
  "created_ids [] s = []"
| "created_ids ((originalURL, now) # rest) s =
     (case Save originalURL now s of
        ((Some url, err), s') \<Rightarrow>
          (if urlsByOrig s originalURL = None then [ID (heap s' ! url)] else [])
            @ created_ids rest s'
      | ((None, err), s') \<Rightarrow> created_ids rest s')"

text \<open>\<open>K\<close> calls of \<open>IncrementAccessCount\<close> on one code, one after the other.\<close>

fun increment_times :: "nat \<Rightarrow> string \<Rightarrow> MemoryStorage \<Rightarrow> MemoryStorage" where
  "increment_times 0 shortCode s = s"
| "increment_times (Suc k) shortCode s =
     increment_times k shortCode (snd (IncrementAccessCount shortCode s))"

text \<open>
  The invariant of the store: the object at address \<open>a\<close> is the \<open>a + 1\<close>-th created,
  has id \<open>a + 1\<close> and the code of its id, and is what each of the three maps holds
  under its key; the maps have no other keys; \<open>nextID\<close> is one more than the number
  of objects.
\<close>

definition coherent :: "MemoryStorage \<Rightarrow> bool" where
  "coherent s \<longleftrightarrow>
     unat (nextID s) = length (heap s) + 1 \<and>
     dom (urls s) = ShortCode ` set (heap s) \<and>
     dom (urlsByID s) = ID ` set (heap s) \<and>
     dom (urlsByOrig s) = OriginalURL ` set (heap s) \<and>
     (\<forall>a < length (heap s).
        ID (heap s ! a) = of_nat (a + 1) \<and>
        ShortCode (heap s ! a) = EncodeBase62 (ID (heap s ! a)) \<and>
        urls s (ShortCode (heap s ! a)) = Some a \<and>
        urlsByID s (ID (heap s ! a)) = Some a \<and>
        urlsByOrig s (OriginalURL (heap s ! a)) = Some a)"

section \<open>The encoder: decoding inverts encoding\<close>

lemma reverse_runes_nth:
  "0 \<le> i \<Longrightarrow> j < int (length xs) \<Longrightarrow>
   length (reverse_runes xs i j) = length xs \<and>
   (\<forall>k < length xs. reverse_runes xs i j ! k =
      (if i \<le> int k \<and> int k \<le> j then xs ! nat (i + j - int k) else xs ! k))"
proof (induction xs i j rule: reverse_runes.induct)
  case (1 runes i j)
  show ?case
  proof (cases "i < j")
    case False
    then have eq: "reverse_runes runes i j = runes"
      by (simp add: reverse_runes.simps)
    have "\<And>k. i \<le> int k \<Longrightarrow> int k \<le> j \<Longrightarrow> nat (i + j - int k) = k"
      using False by linarith
    then show ?thesis
      by (simp add: eq)
  next
    case True
    let ?ys = "runes[nat i := runes ! nat j, nat j := runes ! nat i]"
    have eq: "reverse_runes runes i j = reverse_runes ?ys (i + 1) (j - 1)"
      using True by (subst reverse_runes.simps) simp
    have ih: "length (reverse_runes ?ys (i + 1) (j - 1)) = length ?ys \<and>
      (\<forall>k < length ?ys. reverse_runes ?ys (i + 1) (j - 1) ! k =
        (if i + 1 \<le> int k \<and> int k \<le> j - 1 then ?ys ! nat (i + 1 + (j - 1) - int k) else ?ys ! k))"
      using "1.IH" [OF True] "1.prems" by simp
    show ?thesis
    proof (intro conjI allI impI)
      show "length (reverse_runes runes i j) = length runes"
        using ih eq by simp
    next
      fix k assume k: "k < length runes"
      have r: "reverse_runes runes i j ! k =
        (if i + 1 \<le> int k \<and> int k \<le> j - 1 then ?ys ! nat (i + 1 + (j - 1) - int k) else ?ys ! k)"
        using ih k eq by simp
      consider (lo) "int k = i" | (hi) "int k = j" | (mid) "i < int k" "int k < j"
        | (out) "int k < i \<or> j < int k"
        by linarith
      then show "reverse_runes runes i j ! k =
        (if i \<le> int k \<and> int k \<le> j then runes ! nat (i + j - int k) else runes ! k)"
      proof cases
        case lo
        then have "nat i = k" by simp
        then show ?thesis
          using r lo True k "1.prems" by (simp add: nth_list_update)
      next
        case hi
        then have "nat j = k" by simp
        then show ?thesis
          using r hi True k "1.prems" by (simp add: nth_list_update)
      next
        case mid
        have a: "nat (i + 1 + (j - 1) - int k) \<noteq> nat i" "nat (i + 1 + (j - 1) - int k) \<noteq> nat j"
          using mid "1.prems" by linarith+
        show ?thesis
          using r mid a by (simp add: nth_list_update)
      next
        case out
        then have "k \<noteq> nat i" "k \<noteq> nat j"
          using "1.prems" True by linarith+
        then show ?thesis
          using r out by (auto simp add: nth_list_update)
      qed
    qed
  qed
qed

lemma reverse_runes_rev: "reverse_runes xs 0 (int (length xs) - 1) = rev xs"
proof (rule nth_equalityI)
  show "length (reverse_runes xs 0 (int (length xs) - 1)) = length (rev xs)"
    using reverse_runes_nth [of 0 "int (length xs) - 1" xs] by simp
next
  fix k assume "k < length (reverse_runes xs 0 (int (length xs) - 1))"
  then have k: "k < length xs"
    using reverse_runes_nth [of 0 "int (length xs) - 1" xs] by simp
  then have "nat (int (length xs) - 1 - int k) = length xs - Suc k"
    by linarith
  then show "reverse_runes xs 0 (int (length xs) - 1) ! k = rev xs ! k"
    using reverse_runes_nth [of 0 "int (length xs) - 1" xs] k by (simp add: rev_nth)
qed

lemma unat_div_base_less: "0 < num \<Longrightarrow> unat (num div base) < unat num"
proof -
  assume "0 < num"
  then have "0 < unat num"
    by (simp add: word_greater_zero_iff unat_gt_0)
  then have "unat num div 62 < unat num"
    by simp
  then show ?thesis
    by (simp add: base_def unat_div)
qed

lemma encode_loop_append: "encode_loop num acc = acc @ encode_loop num []"
proof (induction "unat num" arbitrary: num acc rule: less_induct)
  case less
  show ?case
  proof (cases "0 < num")
    case True
    let ?c = "base62Chars ! unat (num mod base)"
    have ih: "\<And>acc. encode_loop (num div base) acc = acc @ encode_loop (num div base) []"
      using less [OF unat_div_base_less [OF True]] .
    have "encode_loop num acc = encode_loop (num div base) (acc @ [?c])"
      using True by (subst encode_loop.simps) simp
    also have "\<dots> = acc @ [?c] @ encode_loop (num div base) []"
      by (subst ih) simp
    also have "[?c] @ encode_loop (num div base) [] = encode_loop (num div base) ([] @ [?c])"
      by (subst (2) ih) simp
    also have "\<dots> = encode_loop num []"
      using True by (subst (2) encode_loop.simps) simp
    finally show ?thesis .
  next
    case False
    then show ?thesis
      by (simp add: encode_loop.simps)
  qed
qed

lemma encode_loop_step:
  "0 < num \<Longrightarrow> encode_loop num [] = base62Chars ! unat (num mod base) # encode_loop (num div base) []"
proof -
  assume pos: "0 < num"
  have "encode_loop num [] = encode_loop (num div base) ([] @ [base62Chars ! unat (num mod base)])"
    using pos by (subst encode_loop.simps) simp
  also have "\<dots> = [base62Chars ! unat (num mod base)] @ encode_loop (num div base) []"
    by (subst encode_loop_append) simp
  finally show ?thesis by simp
qed

lemma encode_loop_zero: "encode_loop 0 acc = acc"
  by (simp add: encode_loop.simps)

lemma char_value_table:
  "map char_value base62Chars = map (\<lambda>k. Some (of_nat k)) [0..<62]"
  by (simp add: base62Chars_def char_value_def upt_conv_Cons)

lemma char_value_digit:
  assumes "k < 62"
  shows "char_value (base62Chars ! k) = Some (of_nat k)"
proof -
  have "map char_value base62Chars ! k = map (\<lambda>k. Some (of_nat k)) [0..<62] ! k"
    by (simp only: char_value_table)
  moreover have "length base62Chars = 62"
    by (simp add: base62Chars_def)
  ultimately show ?thesis
    using assms by simp
qed

lemma char_value_encoded_digit:
  "char_value (base62Chars ! unat (num mod base)) = Some (num mod base)"
proof -
  have "unat (num mod base) < 62"
    by (simp add: base_def unat_mod)
  then have "char_value (base62Chars ! unat (num mod base)) = Some (of_nat (unat (num mod base)))"
    by (rule char_value_digit)
  then show ?thesis by simp
qed

lemma decode_loop_prefix:
  "n \<le> length xs \<Longrightarrow> decode_loop (xs @ ys) n r p = decode_loop xs n r p"
  by (induction n arbitrary: r p) (simp_all add: nth_append split: option.splits)

lemma decode_loop_snoc:
  "decode_loop (xs @ [c]) (Suc (length xs)) r p =
     (case char_value c of None \<Rightarrow> 0
      | Some v \<Rightarrow> decode_loop xs (length xs) (r + v * p) (p * base))"
  by (simp add: decode_loop_prefix split: option.splits)

lemma decode_rev_encode_loop:
  "decode_loop (rev (encode_loop num [])) (length (encode_loop num [])) r p = r + num * p"
proof (induction "unat num" arbitrary: num r p rule: less_induct)
  case less
  show ?case
  proof (cases "0 < num")
    case False
    then have "num = 0" by (simp add: word_greater_zero_iff)
    then show ?thesis by (simp add: encode_loop_zero)
  next
    case True
    let ?c = "base62Chars ! unat (num mod base)"
    let ?rest = "encode_loop (num div base) []"
    have ih: "\<And>r p. decode_loop (rev ?rest) (length ?rest) r p = r + (num div base) * p"
      using less [OF unat_div_base_less [OF True]] .
    have "decode_loop (rev (encode_loop num [])) (length (encode_loop num [])) r p
        = decode_loop (rev ?rest @ [?c]) (Suc (length (rev ?rest))) r p"
      by (simp add: encode_loop_step [OF True])
    also have "\<dots> = decode_loop (rev ?rest) (length (rev ?rest)) (r + (num mod base) * p) (p * base)"
      by (simp only: decode_loop_snoc char_value_encoded_digit option.case)
    also have "\<dots> = r + (num mod base) * p + (num div base) * (p * base)"
      using ih by simp
    also have "\<dots> = r + ((num div base) * base + num mod base) * p"
      by (simp add: algebra_simps)
    also have "\<dots> = r + num * p"
      by (simp only: div_mult_mod_eq)
    finally show ?thesis .
  qed
qed

lemma DecodeBase62_EncodeBase62: "DecodeBase62 (EncodeBase62 num) = num"
proof (cases "num = 0")
  case True
  then show ?thesis
    by (simp add: DecodeBase62_def EncodeBase62_def char_value_def)
next
  case False
  then show ?thesis
    using decode_rev_encode_loop [of num 0 1]
    by (simp add: DecodeBase62_def EncodeBase62_def reverse_runes_rev)
qed

lemma EncodeBase62_inject: "EncodeBase62 m = EncodeBase62 n \<Longrightarrow> m = n"
  by (metis DecodeBase62_EncodeBase62)


lemma valid_loop_iff: "valid_loop rs \<longleftrightarrow> (\<forall>r \<in> set rs. is_base62_rune r)"
  by (induction rs) auto

lemma decoderune_not_base62: "\<not> is_base62_rune (fst (decoderune s))"
  by (simp add: decoderune_def is_base62_rune_def runeError_def Let_def)

lemma valid_loop_range_runes:
  "valid_loop (range_runes bs) \<longleftrightarrow> (\<forall>b \<in> set bs. is_base62_rune b)"
proof (induction bs rule: range_runes.induct)
  case 1
  then show ?case by simp
next
  case (2 b rest)
  show ?case
  proof (cases "b < 0x80")
    case True
    then show ?thesis using 2 by simp
  next
    case False
    then have "\<not> is_base62_rune b"
      by (simp add: is_base62_rune_def)
    then show ?thesis
      using False decoderune_not_base62 [of "b # rest"] by simp
  qed
qed

lemma of_char_base62Chars:
  "map (of_char :: char \<Rightarrow> nat) base62Chars = [48..<58] @ [97..<123] @ [65..<91]"
  by (simp add: base62Chars_def upt_conv_Cons)

lemma is_base62_rune_iff: "is_base62_rune (of_char c) \<longleftrightarrow> c \<in> set base62Chars"
proof -
  have "c \<in> set base62Chars \<longleftrightarrow> (of_char c :: nat) \<in> of_char ` set base62Chars"
    by (simp add: inj_image_mem_iff inj_def)
  also have "\<dots> \<longleftrightarrow> (of_char c :: nat) \<in> set (map of_char base62Chars)"
    by simp
  also have "\<dots> \<longleftrightarrow> (of_char c :: nat) \<in> {48..<58} \<union> {97..<123} \<union> {65..<91}"
    by (simp only: of_char_base62Chars set_append set_upt Un_assoc)
  also have "\<dots> \<longleftrightarrow> is_base62_rune (of_char c)"
    by (auto simp add: is_base62_rune_def)
  finally show ?thesis by simp
qed

lemma char_value_None_iff: "char_value c = None \<longleftrightarrow> \<not> is_base62_rune (of_char c)"
  by (auto simp add: char_value_def is_base62_rune_def Let_def)

lemma decode_loop_invalid:
  "i < n \<Longrightarrow> char_value (s ! i) = None \<Longrightarrow> decode_loop s n r p = 0"
proof (induction n arbitrary: r p)
  case 0
  then show ?case by simp
next
  case (Suc n)
  show ?case
  proof (cases "i = n")
    case True
    then show ?thesis using Suc.prems by simp
  next
    case False
    then have "i < n" using Suc.prems by simp
    then show ?thesis
      using Suc.IH Suc.prems by (simp split: option.splits)
  qed
qed

lemma DecodeBase62_invalid:
  assumes "c \<in> set s" and "c \<notin> set base62Chars"
  shows "DecodeBase62 s = 0"
proof -
  obtain i where "i < length s" "s ! i = c"
    using assms(1) by (auto simp add: in_set_conv_nth)
  moreover have "char_value c = None"
    using assms(2) by (simp add: char_value_None_iff is_base62_rune_iff)
  ultimately show ?thesis
    by (simp add: DecodeBase62_def decode_loop_invalid)
qed

lemma IsValidBase62_iff: "IsValidBase62 s \<longleftrightarrow> s \<noteq> [] \<and> (\<forall>c \<in> set s. c \<in> set base62Chars)"
  by (simp add: IsValidBase62_def valid_loop_range_runes is_base62_rune_iff)

lemma EncodeBase62_1: "EncodeBase62 1 = ''1''"
  by (simp add: EncodeBase62_def reverse_runes_rev encode_loop_step encode_loop_zero base_def
      base62Chars_def word_less_nat_alt unat_div unat_mod)

lemma EncodeBase62_2: "EncodeBase62 2 = ''2''"
  by (simp add: EncodeBase62_def reverse_runes_rev encode_loop_step encode_loop_zero base_def
      base62Chars_def word_less_nat_alt unat_div unat_mod)

lemma EncodeBase62_62: "EncodeBase62 62 = ''10''"
  by (simp add: EncodeBase62_def reverse_runes_rev encode_loop_step encode_loop_zero base_def
      base62Chars_def word_less_nat_alt unat_div unat_mod)

text \<open>
  C1. For every 64-bit unsigned integer \<open>n\<close>, decoding the code of \<open>n\<close> gives \<open>n\<close>
  back, and two distinct integers never have the same code.
\<close>

theorem C1_decode_encode_roundtrip:
  "DecodeBase62 (EncodeBase62 n) = n \<and> (m \<noteq> n \<longrightarrow> EncodeBase62 m \<noteq> EncodeBase62 n)"
  using DecodeBase62_EncodeBase62 [of n] EncodeBase62_inject [of m n] by blast

theorem C1_decode_encode_roundtrip_witness:
  "DecodeBase62 ''10'' = 62 \<and> (1 :: uint64) \<noteq> 62 \<and> EncodeBase62 1 \<noteq> EncodeBase62 62"
  using C1_decode_encode_roundtrip [of 62 1] by (simp add: EncodeBase62_62)

text \<open>
  C2, as stated: on a string with a byte outside the alphabet \<open>DecodeBase62\<close> gives
  a result that differs from the decoding of \<open>"0"\<close>. It fails on \<open>"12!"\<close>.
\<close>

theorem C2_invalid_decodes_like_zero:
  "CHR ''!'' \<in> set ''12!'' \<and> CHR ''!'' \<notin> set base62Chars \<and>
   DecodeBase62 ''12!'' = DecodeBase62 ''0''"
  by (simp add: DecodeBase62_def char_value_def base_def base62Chars_def)

text \<open>
  C2, amended: on a string with a byte outside the alphabet \<open>DecodeBase62\<close> returns
  the integer \<open>0\<close>, which is also the decoding of \<open>"0"\<close>; the string is told apart
  from a code by \<open>IsValidBase62\<close>, which is false on it.
\<close>

theorem C2_invalid_decodes_to_zero:
  assumes "c \<in> set s" and "c \<notin> set base62Chars"
  shows "DecodeBase62 s = 0 \<and> DecodeBase62 s = DecodeBase62 ''0'' \<and> \<not> IsValidBase62 s"
proof -
  have "DecodeBase62 ''0'' = 0"
    by (simp add: DecodeBase62_def char_value_def)
  moreover have "DecodeBase62 s = 0"
    using assms by (rule DecodeBase62_invalid)
  moreover have "\<not> IsValidBase62 s"
    using assms by (auto simp add: IsValidBase62_iff)
  ultimately show ?thesis by simp
qed

theorem C2_invalid_decodes_to_zero_witness:
  "CHR ''@'' \<in> set ''test@code'' \<and> CHR ''@'' \<notin> set base62Chars \<and>
   DecodeBase62 ''test@code'' = 0 \<and> DecodeBase62 ''test@code'' = DecodeBase62 ''0'' \<and>
   \<not> IsValidBase62 ''test@code''"
proof -
  have h1: "CHR ''@'' \<in> set ''test@code''"
    by simp
  have h2: "CHR ''@'' \<notin> set base62Chars"
    by (simp add: base62Chars_def)
  show ?thesis
    using h1 h2 C2_invalid_decodes_to_zero [OF h1 h2] by blast
qed

text \<open>
  C8. \<open>IsValidBase62 s\<close> is true exactly when \<open>s\<close> is not empty and each of its
  characters is one of the 62 of the alphabet \<open>0-9\<close>, \<open>a-z\<close>, \<open>A-Z\<close>.
\<close>

theorem C8_IsValidBase62_alphabet:
  "IsValidBase62 s \<longleftrightarrow> s \<noteq> [] \<and> (\<forall>c \<in> set s. c \<in> set base62Chars)"
  by (rule IsValidBase62_iff)

theorem C8_IsValidBase62_alphabet_witness:
  "IsValidBase62 ''aZ9'' \<and> \<not> IsValidBase62 [] \<and> \<not> IsValidBase62 ''invalid!'' \<and>
   \<not> IsValidBase62 [CHR ''a'', CHR 0xC3, CHR 0xA9]"
  using C8_IsValidBase62_alphabet [of "''aZ9''"] C8_IsValidBase62_alphabet [of "[]"]
    C8_IsValidBase62_alphabet [of "''invalid!''"]
    C8_IsValidBase62_alphabet [of "[CHR ''a'', CHR 0xC3, CHR 0xA9]"]
  by (simp add: base62Chars_def)

section \<open>The store: the invariant is kept\<close>

lemma coherent_New: "coherent NewMemoryStorage"
  by (simp add: coherent_def NewMemoryStorage_def)

lemma Save_existing:
  "urlsByOrig s u = Some a \<Longrightarrow> Save u now s = ((Some a, None), s)"
  by (simp add: Save_def)

lemma Save_new:
  "urlsByOrig s u = None \<Longrightarrow>
   Save u now s =
     ((Some (length (heap s)), None),
      s\<lparr>heap := heap s @ [\<lparr>ID = nextID s, OriginalURL = u, ShortCode = EncodeBase62 (nextID s),
                              CreatedAt = now, AccessCount = 0\<rparr>],
        urls := (urls s)(EncodeBase62 (nextID s) \<mapsto> length (heap s)),
        urlsByID := (urlsByID s)(nextID s \<mapsto> length (heap s)),
        urlsByOrig := (urlsByOrig s)(u \<mapsto> length (heap s)),
        nextID := nextID s + 1\<rparr>)"
  by (simp add: Save_def Let_def)

lemma coherent_orig_ptr_valid:
  assumes "coherent s" and "urlsByOrig s u = Some a"
  shows "a < length (heap s) \<and> OriginalURL (heap s ! a) = u"
proof -
  have "u \<in> OriginalURL ` set (heap s)"
    using assms by (auto simp add: coherent_def)
  then obtain b where "b < length (heap s)" "u = OriginalURL (heap s ! b)"
    by (auto simp add: in_set_conv_nth)
  then show ?thesis
    using assms by (auto simp add: coherent_def)
qed

lemma coherent_id_unat:
  assumes "coherent s" and "a < length (heap s)"
  shows "unat (ID (heap s ! a)) = a + 1"
proof -
  have "unat (nextID s) = length (heap s) + 1"
    using assms by (simp add: coherent_def)
  moreover have "unat (nextID s) < 2 ^ 64"
    using unsigned_less [of "nextID s", where 'a = nat] by simp
  ultimately have "a + 1 < 2 ^ 64"
    using assms(2) by linarith
  moreover have "ID (heap s ! a) = of_nat (a + 1)"
    using assms by (simp add: coherent_def)
  ultimately show ?thesis
    by (simp add: unat_of_nat del: of_nat_Suc of_nat_add)
qed

lemma coherent_id_fresh:
  assumes "coherent s" and "a < length (heap s)"
  shows "ID (heap s ! a) \<noteq> nextID s"
proof
  assume "ID (heap s ! a) = nextID s"
  then have "unat (ID (heap s ! a)) = unat (nextID s)"
    by simp
  then show False
    using coherent_id_unat [OF assms] assms by (simp add: coherent_def)
qed

lemma coherent_Save_new:
  assumes coh: "coherent s" and new: "urlsByOrig s u = None"
    and bound: "length (heap s) + 2 < 2 ^ 64"
  shows "coherent (snd (Save u now s))"
proof -
  let ?n = "length (heap s)"
  let ?obj = "\<lparr>ID = nextID s, OriginalURL = u, ShortCode = EncodeBase62 (nextID s),
               CreatedAt = now, AccessCount = 0\<rparr>"
  have n: "unat (nextID s) = ?n + 1"
    using coh by (simp add: coherent_def)
  have next': "unat (nextID s + 1) = ?n + 2"
    using n bound by (simp add: unat_word_ariths)
  have "of_nat (unat (nextID s)) = nextID s"
    by simp
  then have idn: "nextID s = of_nat (?n + 1)"
    by (simp only: n)
  have old: "\<And>a. a < ?n \<Longrightarrow>
      ID (heap s ! a) = of_nat (a + 1) \<and>
      ShortCode (heap s ! a) = EncodeBase62 (ID (heap s ! a)) \<and>
      urls s (ShortCode (heap s ! a)) = Some a \<and>
      urlsByID s (ID (heap s ! a)) = Some a \<and>
      urlsByOrig s (OriginalURL (heap s ! a)) = Some a"
    using coh unfolding coherent_def by blast
  have fresh_id: "\<And>a. a < ?n \<Longrightarrow> ID (heap s ! a) \<noteq> nextID s"
    using coherent_id_fresh [OF coh] .
  have fresh_code: "\<And>a. a < ?n \<Longrightarrow> ShortCode (heap s ! a) \<noteq> EncodeBase62 (nextID s)"
    using fresh_id old EncodeBase62_inject by metis
  have fresh_orig: "\<And>a. a < ?n \<Longrightarrow> OriginalURL (heap s ! a) \<noteq> u"
    using old new by (metis option.distinct(1))
  have doms: "dom (urls s) = ShortCode ` set (heap s)"
    "dom (urlsByID s) = ID ` set (heap s)"
    "dom (urlsByOrig s) = OriginalURL ` set (heap s)"
    using coh by (simp_all add: coherent_def)
  have rec: "\<And>a. a < Suc ?n \<Longrightarrow>
      ID ((heap s @ [?obj]) ! a) = of_nat (a + 1) \<and>
      ShortCode ((heap s @ [?obj]) ! a) = EncodeBase62 (ID ((heap s @ [?obj]) ! a)) \<and>
      ((urls s)(EncodeBase62 (nextID s) \<mapsto> ?n)) (ShortCode ((heap s @ [?obj]) ! a)) = Some a \<and>
      ((urlsByID s)(nextID s \<mapsto> ?n)) (ID ((heap s @ [?obj]) ! a)) = Some a \<and>
      ((urlsByOrig s)(u \<mapsto> ?n)) (OriginalURL ((heap s @ [?obj]) ! a)) = Some a"
  proof -
    fix a assume "a < Suc ?n"
    then consider "a < ?n" | "a = ?n" by linarith
    then show "ID ((heap s @ [?obj]) ! a) = of_nat (a + 1) \<and>
      ShortCode ((heap s @ [?obj]) ! a) = EncodeBase62 (ID ((heap s @ [?obj]) ! a)) \<and>
      ((urls s)(EncodeBase62 (nextID s) \<mapsto> ?n)) (ShortCode ((heap s @ [?obj]) ! a)) = Some a \<and>
      ((urlsByID s)(nextID s \<mapsto> ?n)) (ID ((heap s @ [?obj]) ! a)) = Some a \<and>
      ((urlsByOrig s)(u \<mapsto> ?n)) (OriginalURL ((heap s @ [?obj]) ! a)) = Some a"
    proof cases
      case 1
      have eq: "(heap s @ [?obj]) ! a = heap s ! a"
        using 1 by (simp add: nth_append)
      have o1: "ID (heap s ! a) = of_nat (a + 1)"
        and o2: "ShortCode (heap s ! a) = EncodeBase62 (ID (heap s ! a))"
        and o3: "urls s (ShortCode (heap s ! a)) = Some a"
        and o4: "urlsByID s (ID (heap s ! a)) = Some a"
        and o5: "urlsByOrig s (OriginalURL (heap s ! a)) = Some a"
        using old [OF 1] by blast+
      show ?thesis
        unfolding eq
      proof (intro conjI)
        show "ID (heap s ! a) = of_nat (a + 1)"
          by (rule o1)
        show "ShortCode (heap s ! a) = EncodeBase62 (ID (heap s ! a))"
          by (rule o2)
        show "((urls s)(EncodeBase62 (nextID s) \<mapsto> ?n)) (ShortCode (heap s ! a)) = Some a"
          using o3 fresh_code [OF 1] by simp
        show "((urlsByID s)(nextID s \<mapsto> ?n)) (ID (heap s ! a)) = Some a"
          using o4 fresh_id [OF 1] by simp
        show "((urlsByOrig s)(u \<mapsto> ?n)) (OriginalURL (heap s ! a)) = Some a"
          using o5 fresh_orig [OF 1] by simp
      qed
    next
      case 2
      then show ?thesis
        using idn by (simp add: nth_append del: of_nat_Suc of_nat_add)
    qed
  qed
  let ?s' = "s\<lparr>heap := heap s @ [?obj],
        urls := (urls s)(EncodeBase62 (nextID s) \<mapsto> ?n),
        urlsByID := (urlsByID s)(nextID s \<mapsto> ?n),
        urlsByOrig := (urlsByOrig s)(u \<mapsto> ?n),
        nextID := nextID s + 1\<rparr>"
  have sel: "heap ?s' = heap s @ [?obj]"
    "urls ?s' = (urls s)(EncodeBase62 (nextID s) \<mapsto> ?n)"
    "urlsByID ?s' = (urlsByID s)(nextID s \<mapsto> ?n)"
    "urlsByOrig ?s' = (urlsByOrig s)(u \<mapsto> ?n)"
    "nextID ?s' = nextID s + 1"
    by simp_all
  have "coherent ?s'"
    unfolding coherent_def sel
  proof (intro conjI allI impI)
    show "unat (nextID s + 1) = length (heap s @ [?obj]) + 1"
      using next' by simp
    show "dom ((urls s)(EncodeBase62 (nextID s) \<mapsto> ?n)) = ShortCode ` set (heap s @ [?obj])"
      using doms(1) by simp
    show "dom ((urlsByID s)(nextID s \<mapsto> ?n)) = ID ` set (heap s @ [?obj])"
      using doms(2) by simp
    show "dom ((urlsByOrig s)(u \<mapsto> ?n)) = OriginalURL ` set (heap s @ [?obj])"
      using doms(3) by simp
  next
    fix a assume "a < length (heap s @ [?obj])"
    then have a: "a < Suc ?n" by simp
    show "ID ((heap s @ [?obj]) ! a) = of_nat (a + 1)"
      using rec [OF a] by blast
    show "ShortCode ((heap s @ [?obj]) ! a) = EncodeBase62 (ID ((heap s @ [?obj]) ! a))"
      using rec [OF a] by blast
    show "((urls s)(EncodeBase62 (nextID s) \<mapsto> ?n)) (ShortCode ((heap s @ [?obj]) ! a)) = Some a"
      using rec [OF a] by blast
    show "((urlsByID s)(nextID s \<mapsto> ?n)) (ID ((heap s @ [?obj]) ! a)) = Some a"
      using rec [OF a] by blast
    show "((urlsByOrig s)(u \<mapsto> ?n)) (OriginalURL ((heap s @ [?obj]) ! a)) = Some a"
      using rec [OF a] by blast
  qed
  then show ?thesis
    by (simp only: Save_new [OF new] snd_conv)
qed

lemma coherent_Save:
  assumes "coherent s" and "length (heap s) + 2 < 2 ^ 64"
  shows "coherent (snd (Save u now s))"
proof (cases "urlsByOrig s u")
  case None
  then show ?thesis using assms by (rule_tac coherent_Save_new)
next
  case (Some a)
  then show ?thesis using assms by (simp add: Save_existing)
qed

lemma heap_Save_length:
  "length (heap (snd (Save u now s))) \<le> Suc (length (heap s))"
  by (cases "urlsByOrig s u") (simp_all add: Save_existing Save_new)

lemma IncrementAccessCount_absent:
  "urls s c = None \<Longrightarrow> IncrementAccessCount c s = (Some storage_ErrURLNotFound, s)"
  by (simp add: IncrementAccessCount_def)

lemma IncrementAccessCount_present:
  "urls s c = Some a \<Longrightarrow>
   IncrementAccessCount c s =
     (None, s\<lparr>heap := (heap s)[a := (heap s ! a)\<lparr>AccessCount := AccessCount (heap s ! a) + 1\<rparr>]\<rparr>)"
  by (simp add: IncrementAccessCount_def)

lemma image_set_list_update:
  assumes "f x = f (xs ! a)"
  shows "f ` set (xs[a := x]) = f ` set xs"
proof (cases "a < length xs")
  case True
  have "map f (xs[a := x]) = (map f xs)[a := map f xs ! a]"
    using assms True by (simp add: map_update)
  then have "map f (xs[a := x]) = map f xs"
    by simp
  then have "set (map f (xs[a := x])) = set (map f xs)"
    by simp
  then show ?thesis
    by (simp only: set_map)
next
  case False
  then have "xs[a := x] = xs"
    by (simp add: list_update_beyond)
  then show ?thesis by simp
qed

lemma coherent_IncrementAccessCount:
  assumes coh: "coherent s"
  shows "coherent (snd (IncrementAccessCount c s))"
proof (cases "urls s c")
  case None
  then show ?thesis
    using coh by (simp add: IncrementAccessCount_absent)
next
  case (Some a)
  let ?r = "(heap s ! a)\<lparr>AccessCount := AccessCount (heap s ! a) + 1\<rparr>"
  let ?h = "(heap s)[a := ?r]"
  have nth: "\<And>b. b < length (heap s) \<Longrightarrow>
      ID (?h ! b) = ID (heap s ! b) \<and> ShortCode (?h ! b) = ShortCode (heap s ! b) \<and>
      OriginalURL (?h ! b) = OriginalURL (heap s ! b)"
  proof -
    fix b assume "b < length (heap s)"
    then show "ID (?h ! b) = ID (heap s ! b) \<and> ShortCode (?h ! b) = ShortCode (heap s ! b) \<and>
      OriginalURL (?h ! b) = OriginalURL (heap s ! b)"
      by (cases "a = b") simp_all
  qed
  have "coherent (s\<lparr>heap := ?h\<rparr>)"
    unfolding coherent_def
  proof (intro conjI allI impI)
    show "unat (nextID (s\<lparr>heap := ?h\<rparr>)) = length (heap (s\<lparr>heap := ?h\<rparr>)) + 1"
      using coh by (simp add: coherent_def)
    show "dom (urls (s\<lparr>heap := ?h\<rparr>)) = ShortCode ` set (heap (s\<lparr>heap := ?h\<rparr>))"
      using coh by (simp add: coherent_def image_set_list_update)
    show "dom (urlsByID (s\<lparr>heap := ?h\<rparr>)) = ID ` set (heap (s\<lparr>heap := ?h\<rparr>))"
      using coh by (simp add: coherent_def image_set_list_update)
    show "dom (urlsByOrig (s\<lparr>heap := ?h\<rparr>)) = OriginalURL ` set (heap (s\<lparr>heap := ?h\<rparr>))"
      using coh by (simp add: coherent_def image_set_list_update)
  next
    fix b assume "b < length (heap (s\<lparr>heap := ?h\<rparr>))"
    then have b: "b < length (heap s)" by simp
    have old: "ID (heap s ! b) = of_nat (b + 1) \<and>
      ShortCode (heap s ! b) = EncodeBase62 (ID (heap s ! b)) \<and>
      urls s (ShortCode (heap s ! b)) = Some b \<and>
      urlsByID s (ID (heap s ! b)) = Some b \<and>
      urlsByOrig s (OriginalURL (heap s ! b)) = Some b"
      using coh b unfolding coherent_def by blast
    have sel: "heap (s\<lparr>heap := ?h\<rparr>) = ?h" "urls (s\<lparr>heap := ?h\<rparr>) = urls s"
      "urlsByID (s\<lparr>heap := ?h\<rparr>) = urlsByID s" "urlsByOrig (s\<lparr>heap := ?h\<rparr>) = urlsByOrig s"
      by simp_all
    show "ID (heap (s\<lparr>heap := ?h\<rparr>) ! b) = of_nat (b + 1)"
      unfolding sel using old nth [OF b] by metis
    show "ShortCode (heap (s\<lparr>heap := ?h\<rparr>) ! b) = EncodeBase62 (ID (heap (s\<lparr>heap := ?h\<rparr>) ! b))"
      unfolding sel using old nth [OF b] by metis
    show "urls (s\<lparr>heap := ?h\<rparr>) (ShortCode (heap (s\<lparr>heap := ?h\<rparr>) ! b)) = Some b"
      unfolding sel using old nth [OF b] by metis
    show "urlsByID (s\<lparr>heap := ?h\<rparr>) (ID (heap (s\<lparr>heap := ?h\<rparr>) ! b)) = Some b"
      unfolding sel using old nth [OF b] by metis
    show "urlsByOrig (s\<lparr>heap := ?h\<rparr>) (OriginalURL (heap (s\<lparr>heap := ?h\<rparr>) ! b)) = Some b"
      unfolding sel using old nth [OF b] by metis
  qed
  then show ?thesis
    by (simp only: IncrementAccessCount_present [OF Some] snd_conv)
qed

lemma heap_IncrementAccessCount_length:
  "length (heap (snd (IncrementAccessCount c s))) = length (heap s)"
  by (cases "urls s c") (simp_all add: IncrementAccessCount_absent IncrementAccessCount_present)

lemma coherent_apply_op:
  assumes "coherent s" and "length (heap s) + 2 < 2 ^ 64"
  shows "coherent (apply_op x s) \<and> length (heap (apply_op x s)) \<le> Suc (length (heap s))"
proof (cases x)
  case (OpSave u now)
  then show ?thesis
    using assms coherent_Save [of s u now] heap_Save_length [of u now s] by simp
next
  case (OpGetByShortCode c)
  then show ?thesis using assms by simp
next
  case (OpGetByID i)
  then show ?thesis using assms by simp
next
  case (OpIncrementAccessCount c)
  then show ?thesis
    using assms coherent_IncrementAccessCount [of s c] heap_IncrementAccessCount_length [of c s]
    by simp
qed

lemma coherent_run_from:
  assumes "coherent s" and "length (heap s) + length ops + 1 < 2 ^ 64"
  shows "coherent (run ops s) \<and> length (heap (run ops s)) \<le> length (heap s) + length ops"
  using assms
proof (induction ops arbitrary: s)
  case Nil
  then show ?case by (simp add: run_def)
next
  case (Cons x ops)
  have b: "length (heap s) + 2 < 2 ^ 64"
    using Cons.prems(2) by simp
  have step: "coherent (apply_op x s)" "length (heap (apply_op x s)) \<le> Suc (length (heap s))"
    using coherent_apply_op [OF Cons.prems(1) b] by blast+
  have "length (heap (apply_op x s)) + length ops + 1 < 2 ^ 64"
    using step(2) Cons.prems(2) by simp
  then have "coherent (run ops (apply_op x s)) \<and>
      length (heap (run ops (apply_op x s))) \<le> length (heap (apply_op x s)) + length ops"
    using Cons.IH [OF step(1)] by blast
  then show ?case
    using step(2) by (simp add: run_def)
qed

lemma coherent_run:
  assumes "length ops < 2 ^ 64 - 1"
  shows "coherent (run ops NewMemoryStorage)"
proof -
  have "length (heap NewMemoryStorage) + length ops + 1 < 2 ^ 64"
    using assms by (simp add: NewMemoryStorage_def)
  then show ?thesis
    using coherent_run_from [OF coherent_New] by blast
qed

lemma coherent_ran_urls:
  assumes "coherent s"
  shows "ran (urls s) = {0..<length (heap s)}"
    and "ran (urlsByID s) = {0..<length (heap s)}"
    and "ran (urlsByOrig s) = {0..<length (heap s)}"
proof -
  have rec: "\<And>a. a < length (heap s) \<Longrightarrow>
      urls s (ShortCode (heap s ! a)) = Some a \<and>
      urlsByID s (ID (heap s ! a)) = Some a \<and>
      urlsByOrig s (OriginalURL (heap s ! a)) = Some a"
    using assms unfolding coherent_def by blast
  have doms: "dom (urls s) = ShortCode ` set (heap s)"
    "dom (urlsByID s) = ID ` set (heap s)"
    "dom (urlsByOrig s) = OriginalURL ` set (heap s)"
    using assms by (simp_all add: coherent_def)
  show "ran (urls s) = {0..<length (heap s)}"
  proof (intro set_eqI iffI)
    fix a assume "a \<in> ran (urls s)"
    then obtain c where c: "urls s c = Some a"
      by (auto simp add: ran_def)
    then have "c \<in> ShortCode ` set (heap s)"
      using doms(1) by auto
    then obtain b where "b < length (heap s)" "c = ShortCode (heap s ! b)"
      by (auto simp add: in_set_conv_nth)
    then show "a \<in> {0..<length (heap s)}"
      using rec [of b] c by simp
  next
    fix a assume "a \<in> {0..<length (heap s)}"
    then show "a \<in> ran (urls s)"
      using rec [of a] by (auto simp add: ran_def)
  qed
  show "ran (urlsByID s) = {0..<length (heap s)}"
  proof (intro set_eqI iffI)
    fix a assume "a \<in> ran (urlsByID s)"
    then obtain c where c: "urlsByID s c = Some a"
      by (auto simp add: ran_def)
    then have "c \<in> ID ` set (heap s)"
      using doms(2) by auto
    then obtain b where "b < length (heap s)" "c = ID (heap s ! b)"
      by (auto simp add: in_set_conv_nth)
    then show "a \<in> {0..<length (heap s)}"
      using rec [of b] c by simp
  next
    fix a assume "a \<in> {0..<length (heap s)}"
    then show "a \<in> ran (urlsByID s)"
      using rec [of a] by (auto simp add: ran_def)
  qed
  show "ran (urlsByOrig s) = {0..<length (heap s)}"
  proof (intro set_eqI iffI)
    fix a assume "a \<in> ran (urlsByOrig s)"
    then obtain c where c: "urlsByOrig s c = Some a"
      by (auto simp add: ran_def)
    then have "c \<in> OriginalURL ` set (heap s)"
      using doms(3) by auto
    then obtain b where "b < length (heap s)" "c = OriginalURL (heap s ! b)"
      by (auto simp add: in_set_conv_nth)
    then show "a \<in> {0..<length (heap s)}"
      using rec [of b] c by simp
  next
    fix a assume "a \<in> {0..<length (heap s)}"
    then show "a \<in> ran (urlsByOrig s)"
      using rec [of a] by (auto simp add: ran_def)
  qed
qed

lemma card_dom_by_heap:
  assumes keys: "dom m = f ` set h"
    and lookup: "\<And>a. a < length h \<Longrightarrow> m (f (h ! a)) = Some a"
  shows "card (dom m) = length h"
proof -
  have "set h = (\<lambda>a. h ! a) ` {0..<length h}"
    by (auto simp add: in_set_conv_nth)
  then have "f ` set h = f ` (\<lambda>a. h ! a) ` {0..<length h}"
    by simp
  then have e: "dom m = (\<lambda>a. f (h ! a)) ` {0..<length h}"
    by (simp only: keys image_image)
  have "inj_on (\<lambda>a. f (h ! a)) {0..<length h}"
  proof (rule inj_onI)
    fix a b assume ab: "a \<in> {0..<length h}" "b \<in> {0..<length h}"
      and eq: "f (h ! a) = f (h ! b)"
    have "m (f (h ! a)) = Some a" "m (f (h ! b)) = Some b"
      using ab by (simp_all add: lookup)
    then have "Some a = Some b"
      by (simp only: eq)
    then show "a = b"
      by simp
  qed
  then have "card ((\<lambda>a. f (h ! a)) ` {0..<length h}) = card {0..<length h}"
    by (rule card_image)
  then show ?thesis
    by (simp only: e card_atLeastLessThan diff_zero)
qed

lemma coherent_card:
  assumes "coherent s"
  shows "card (dom (urls s)) = length (heap s)"
    and "card (dom (urlsByID s)) = length (heap s)"
    and "card (dom (urlsByOrig s)) = length (heap s)"
proof -
  have rec: "\<And>a. a < length (heap s) \<Longrightarrow>
      urls s (ShortCode (heap s ! a)) = Some a \<and>
      urlsByID s (ID (heap s ! a)) = Some a \<and>
      urlsByOrig s (OriginalURL (heap s ! a)) = Some a"
    using assms unfolding coherent_def by blast
  have doms: "dom (urls s) = ShortCode ` set (heap s)"
    "dom (urlsByID s) = ID ` set (heap s)"
    "dom (urlsByOrig s) = OriginalURL ` set (heap s)"
    using assms by (simp_all add: coherent_def)
  show "card (dom (urls s)) = length (heap s)"
    by (rule card_dom_by_heap [OF doms(1)]) (use rec in blast)
  show "card (dom (urlsByID s)) = length (heap s)"
    by (rule card_dom_by_heap [OF doms(2)]) (use rec in blast)
  show "card (dom (urlsByOrig s)) = length (heap s)"
    by (rule card_dom_by_heap [OF doms(3)]) (use rec in blast)
qed

lemma coherent_ids:
  assumes coh: "coherent s"
  shows "dom (urlsByID s) = {i. 1 \<le> i \<and> i < nextID s}"
proof (intro set_eqI iffI)
  fix i assume "i \<in> dom (urlsByID s)"
  then have "i \<in> ID ` set (heap s)"
    using coh by (simp add: coherent_def)
  then obtain a where a: "a < length (heap s)" "i = ID (heap s ! a)"
    by (auto simp add: in_set_conv_nth)
  have "unat i = a + 1"
    using coherent_id_unat [OF coh a(1)] a(2) by simp
  moreover have "unat (nextID s) = length (heap s) + 1"
    using coh by (simp add: coherent_def)
  ultimately have "unat 1 \<le> unat i \<and> unat i < unat (nextID s)"
    using a(1) by simp
  then show "i \<in> {i. 1 \<le> i \<and> i < nextID s}"
    by (simp add: word_le_nat_alt word_less_nat_alt)
next
  fix i assume "i \<in> {i. 1 \<le> i \<and> i < nextID s}"
  then have "unat 1 \<le> unat i" "unat i < unat (nextID s)"
    by (simp_all add: word_le_nat_alt word_less_nat_alt)
  moreover have "unat (nextID s) = length (heap s) + 1"
    using coh by (simp add: coherent_def)
  ultimately have a: "unat i - 1 < length (heap s)" and pos: "0 < unat i"
    by simp_all
  have "ID (heap s ! (unat i - 1)) = of_nat (unat i - 1 + 1)"
    using coh a unfolding coherent_def by blast
  also have "\<dots> = i"
    using pos by simp
  finally have "ID (heap s ! (unat i - 1)) = i" .
  moreover have "heap s ! (unat i - 1) \<in> set (heap s)"
    using a by simp
  ultimately have "i \<in> ID ` set (heap s)"
    by (metis imageI)
  then show "i \<in> dom (urlsByID s)"
    using coh by (simp add: coherent_def)
qed

lemma Save_result:
  "\<exists>a. fst (Save u now s) = (Some a, None)"
  by (cases "urlsByOrig s u") (simp_all add: Save_existing Save_new)

lemma created_ids_from:
  assumes "coherent s" and "length (heap s) + length us + 1 < 2 ^ 64"
  shows "map unat (created_ids us s) =
     [length (heap s) + 1 ..< length (heap s) + 1 + card (fst ` set us - dom (urlsByOrig s))]"
  using assms
proof (induction us arbitrary: s)
  case Nil
  then show ?case by simp
next
  case (Cons x us)
  obtain u now where x: "x = (u, now)"
    by (cases x)
  show ?case
  proof (cases "urlsByOrig s u")
    case (Some a)
    have "u \<in> dom (urlsByOrig s)"
      using Some by auto
    then have "fst ` set (x # us) - dom (urlsByOrig s) = fst ` set us - dom (urlsByOrig s)"
      using x by auto
    moreover have "map unat (created_ids us s) =
        [length (heap s) + 1 ..< length (heap s) + 1 + card (fst ` set us - dom (urlsByOrig s))]"
      using Cons.IH [OF Cons.prems(1)] Cons.prems(2) by simp
    ultimately show ?thesis
      using x Some by (simp add: Save_existing)
  next
    case None
    let ?n = "length (heap s)"
    let ?s' = "snd (Save u now s)"
    have b: "?n + 2 < 2 ^ 64"
      using Cons.prems(2) by simp
    have coh': "coherent ?s'"
      using coherent_Save_new [OF Cons.prems(1) None b] .
    have len': "length (heap ?s') = Suc ?n"
      by (simp add: Save_new [OF None])
    have dom': "dom (urlsByOrig ?s') = insert u (dom (urlsByOrig s))"
      by (simp add: Save_new [OF None])
    have "length (heap ?s') + length us + 1 < 2 ^ 64"
      using Cons.prems(2) len' by simp
    then have ih: "map unat (created_ids us ?s') =
        [?n + 2 ..< ?n + 2 + card (fst ` set us - insert u (dom (urlsByOrig s)))]"
      using Cons.IH [OF coh'] len' dom' by simp
    have "unat (nextID s) = ?n + 1"
      using Cons.prems(1) by (simp add: coherent_def)
    then have hd: "unat (ID (heap ?s' ! ?n)) = ?n + 1"
      by (simp add: Save_new [OF None])
    have "u \<notin> dom (urlsByOrig s)"
      using None by auto
    then have "fst ` set (x # us) - dom (urlsByOrig s) =
        insert u (fst ` set us - insert u (dom (urlsByOrig s)))"
      using x by auto
    then have card: "card (fst ` set (x # us) - dom (urlsByOrig s)) =
        Suc (card (fst ` set us - insert u (dom (urlsByOrig s))))"
      by simp
    have "created_ids (x # us) s = ID (heap ?s' ! ?n) # created_ids us ?s'"
      using x None by (simp add: Save_new [OF None])
    then have "map unat (created_ids (x # us) s) =
        (?n + 1) # [?n + 2 ..< ?n + 2 + card (fst ` set us - insert u (dom (urlsByOrig s)))]"
      using hd ih by simp
    also have "\<dots> = [?n + 1 ..< ?n + 1 + card (fst ` set (x # us) - dom (urlsByOrig s))]"
    proof -
      let ?c = "card (fst ` set us - insert u (dom (urlsByOrig s)))"
      have "[?n + 1 ..< ?n + 1 + Suc ?c] = (?n + 1) # [Suc (?n + 1) ..< ?n + 1 + Suc ?c]"
        by (rule upt_conv_Cons) simp
      moreover have "Suc (?n + 1) = ?n + 2" "?n + 1 + Suc ?c = ?n + 2 + ?c"
        by simp_all
      ultimately have "[?n + 1 ..< ?n + 1 + Suc ?c] = (?n + 1) # [?n + 2 ..< ?n + 2 + ?c]"
        by (simp only:)
      then show ?thesis
        by (simp only: card)
    qed
    finally show ?thesis .
  qed
qed

lemma created_ids_New:
  assumes "length us < 2 ^ 64 - 1"
  shows "map unat (created_ids us NewMemoryStorage) = [1 ..< 1 + card (fst ` set us)]"
proof -
  have "length (heap NewMemoryStorage) + length us + 1 < 2 ^ 64"
    using assms by (simp add: NewMemoryStorage_def)
  then have "map unat (created_ids us NewMemoryStorage) =
     [length (heap NewMemoryStorage) + 1 ..< length (heap NewMemoryStorage) + 1 +
        card (fst ` set us - dom (urlsByOrig NewMemoryStorage))]"
    by (rule created_ids_from [OF coherent_New])
  moreover have "length (heap NewMemoryStorage) = 0" "dom (urlsByOrig NewMemoryStorage) = {}"
    by (simp_all add: NewMemoryStorage_def)
  ultimately show ?thesis
    by (simp only: add_0 Diff_empty)
qed

lemma created_ids_props:
  assumes "length us < 2 ^ 64 - 1"
  shows "length (created_ids us NewMemoryStorage) = card (fst ` set us)"
    and "\<And>k. k < card (fst ` set us) \<Longrightarrow> unat (created_ids us NewMemoryStorage ! k) = k + 1"
    and "sorted_wrt (<) (created_ids us NewMemoryStorage)"
    and "distinct (created_ids us NewMemoryStorage)"
proof -
  let ?ids = "created_ids us NewMemoryStorage"
  let ?c = "card (fst ` set us)"
  have m: "map unat ?ids = [1 ..< 1 + ?c]"
    using created_ids_New [OF assms] .
  have "length (map unat ?ids) = length [1 ..< 1 + ?c]"
    by (simp only: m)
  then show len: "length ?ids = ?c"
    by (simp only: length_map length_upt add_diff_cancel_left')
  show "\<And>k. k < ?c \<Longrightarrow> unat (?ids ! k) = k + 1"
  proof -
    fix k assume k: "k < ?c"
    then have "map unat ?ids ! k = unat (?ids ! k)"
      using len by simp
    moreover have "[1 ..< 1 + ?c] ! k = 1 + k"
      using k by (intro nth_upt) simp
    ultimately show "unat (?ids ! k) = k + 1"
      using m by simp
  qed
  have "sorted_wrt (<) [1 ..< 1 + ?c]"
    by (rule sorted_wrt_upt)
  then have "sorted_wrt (<) (map unat ?ids)"
    by (simp only: m)
  then have "sorted_wrt (\<lambda>x y. unat x < unat y) ?ids"
    by (simp only: sorted_wrt_map)
  moreover have "(\<lambda>x y :: uint64. unat x < unat y) = (<)"
    by (intro ext) (simp add: word_less_nat_alt)
  ultimately show "sorted_wrt (<) ?ids"
    by simp
  have "distinct [1 ..< 1 + ?c]"
    by (rule distinct_upt)
  then have "distinct (map unat ?ids)"
    by (simp only: m)
  then show "distinct ?ids"
    by (simp add: distinct_map)
qed

lemma record_stable_apply_op:
  assumes "urlsByOrig s u = Some a" and "a < length (heap s)"
  shows "urlsByOrig (apply_op x s) u = Some a \<and> a < length (heap (apply_op x s)) \<and>
    ID (heap (apply_op x s) ! a) = ID (heap s ! a) \<and>
    OriginalURL (heap (apply_op x s) ! a) = OriginalURL (heap s ! a) \<and>
    ShortCode (heap (apply_op x s) ! a) = ShortCode (heap s ! a) \<and>
    CreatedAt (heap (apply_op x s) ! a) = CreatedAt (heap s ! a)"
proof (cases x)
  case (OpSave u' now)
  show ?thesis
  proof (cases "urlsByOrig s u'")
    case None
    then have "u' \<noteq> u"
      using assms(1) by auto
    then show ?thesis
      using assms OpSave by (simp add: Save_new [OF None] nth_append)
  next
    case (Some b)
    then show ?thesis
      using assms OpSave by (simp add: Save_existing)
  qed
next
  case (OpGetByShortCode c)
  then show ?thesis using assms by simp
next
  case (OpGetByID i)
  then show ?thesis using assms by simp
next
  case (OpIncrementAccessCount c)
  show ?thesis
  proof (cases "urls s c")
    case None
    then show ?thesis
      using assms OpIncrementAccessCount by (simp add: IncrementAccessCount_absent)
  next
    case (Some b)
    then show ?thesis
      using assms OpIncrementAccessCount
      by (cases "b = a") (simp_all add: IncrementAccessCount_present)
  qed
qed

lemma record_stable_run:
  assumes "urlsByOrig s u = Some a" and "a < length (heap s)"
  shows "urlsByOrig (run ops s) u = Some a \<and> a < length (heap (run ops s)) \<and>
    ID (heap (run ops s) ! a) = ID (heap s ! a) \<and>
    OriginalURL (heap (run ops s) ! a) = OriginalURL (heap s ! a) \<and>
    ShortCode (heap (run ops s) ! a) = ShortCode (heap s ! a) \<and>
    CreatedAt (heap (run ops s) ! a) = CreatedAt (heap s ! a)"
  using assms
proof (induction ops arbitrary: s)
  case Nil
  then show ?case by (simp add: run_def)
next
  case (Cons x ops)
  have step: "urlsByOrig (apply_op x s) u = Some a" "a < length (heap (apply_op x s))"
    using record_stable_apply_op [OF Cons.prems] by blast+
  have "run (x # ops) s = run ops (apply_op x s)"
    by (simp add: run_def)
  then show ?case
    using Cons.IH [OF step] record_stable_apply_op [OF Cons.prems, of x] by simp
qed

lemma Save_twice_fresh:
  assumes coh: "coherent s" and new: "urlsByOrig s u = None"
  shows "fst (Save u t1 s) = (Some (length (heap s)), None)"
    and "Save u t2 (snd (Save u t1 s)) = ((Some (length (heap s)), None), snd (Save u t1 s))"
    and "heap (snd (Save u t1 s)) ! length (heap s) =
      \<lparr>ID = nextID s, OriginalURL = u, ShortCode = EncodeBase62 (nextID s),
        CreatedAt = t1, AccessCount = 0\<rparr>"
    and "nextID (snd (Save u t1 s)) = nextID s + 1"
    and "card (dom (urls (snd (Save u t1 s)))) = card (dom (urls s)) + 1"
proof -
  show "fst (Save u t1 s) = (Some (length (heap s)), None)"
    by (simp add: Save_new [OF new])
  have "urlsByOrig (snd (Save u t1 s)) u = Some (length (heap s))"
    by (simp add: Save_new [OF new])
  then show "Save u t2 (snd (Save u t1 s)) = ((Some (length (heap s)), None), snd (Save u t1 s))"
    by (rule Save_existing)
  show "heap (snd (Save u t1 s)) ! length (heap s) =
      \<lparr>ID = nextID s, OriginalURL = u, ShortCode = EncodeBase62 (nextID s),
        CreatedAt = t1, AccessCount = 0\<rparr>"
    by (simp add: Save_new [OF new])
  show "nextID (snd (Save u t1 s)) = nextID s + 1"
    by (simp add: Save_new [OF new])
  have "finite (dom (urls s))"
    using coh by (simp add: coherent_def)
  moreover have "EncodeBase62 (nextID s) \<notin> dom (urls s)"
  proof
    assume "EncodeBase62 (nextID s) \<in> dom (urls s)"
    then have "EncodeBase62 (nextID s) \<in> ShortCode ` set (heap s)"
      using coh by (simp add: coherent_def)
    then obtain a where a: "a < length (heap s)" "EncodeBase62 (nextID s) = ShortCode (heap s ! a)"
      by (auto simp add: in_set_conv_nth)
    have "ShortCode (heap s ! a) = EncodeBase62 (ID (heap s ! a))"
      using coh a(1) unfolding coherent_def by blast
    then have "nextID s = ID (heap s ! a)"
      using a(2) EncodeBase62_inject by simp
    then show False
      using coherent_id_fresh [OF coh a(1)] by simp
  qed
  ultimately show "card (dom (urls (snd (Save u t1 s)))) = card (dom (urls s)) + 1"
    by (simp add: Save_new [OF new])
qed

lemma increment_times_count:
  assumes "urls s c = Some a" and "a < length (heap s)"
  shows "urls (increment_times k c s) = urls s \<and>
    length (heap (increment_times k c s)) = length (heap s) \<and>
    AccessCount (heap (increment_times k c s) ! a) = AccessCount (heap s ! a) + of_nat k"
  using assms
proof (induction k arbitrary: s)
  case 0
  then show ?case by simp
next
  case (Suc k)
  let ?s' = "snd (IncrementAccessCount c s)"
  have s': "urls ?s' = urls s" "length (heap ?s') = length (heap s)"
    "AccessCount (heap ?s' ! a) = AccessCount (heap s ! a) + 1"
    using Suc.prems by (simp_all add: IncrementAccessCount_present)
  have "urls ?s' c = Some a" "a < length (heap ?s')"
    using Suc.prems s' by simp_all
  then have "urls (increment_times k c ?s') = urls ?s' \<and>
    length (heap (increment_times k c ?s')) = length (heap ?s') \<and>
    AccessCount (heap (increment_times k c ?s') ! a) = AccessCount (heap ?s' ! a) + of_nat k"
    by (rule Suc.IH)
  then show ?case
    using s' by (simp add: add.assoc add.commute)
qed

lemma increment_times_from_zero:
  assumes "urls s c = Some a" and "a < length (heap s)"
    and "AccessCount (heap s ! a) = 0" and "k < 2 ^ 64"
  shows "unat (AccessCount (heap (increment_times k c s) ! a)) = k"
proof -
  have "AccessCount (heap (increment_times k c s) ! a) = of_nat k"
    using increment_times_count [OF assms(1,2), of k] assms(3) by simp
  then show ?thesis
    using assms(4) by (simp add: unat_of_nat)
qed

lemma IncrementAccessCount_frame:
  assumes "urls s c = Some a" and "a < length (heap s)"
  shows "fst (IncrementAccessCount c s) = None"
    and "AccessCount (heap (snd (IncrementAccessCount c s)) ! a) = AccessCount (heap s ! a) + 1"
    and "ID (heap (snd (IncrementAccessCount c s)) ! a) = ID (heap s ! a)"
    and "OriginalURL (heap (snd (IncrementAccessCount c s)) ! a) = OriginalURL (heap s ! a)"
    and "ShortCode (heap (snd (IncrementAccessCount c s)) ! a) = ShortCode (heap s ! a)"
    and "CreatedAt (heap (snd (IncrementAccessCount c s)) ! a) = CreatedAt (heap s ! a)"
    and "length (heap (snd (IncrementAccessCount c s))) = length (heap s)"
    and "\<And>b. b \<noteq> a \<Longrightarrow> heap (snd (IncrementAccessCount c s)) ! b = heap s ! b"
    and "urls (snd (IncrementAccessCount c s)) = urls s"
    and "urlsByID (snd (IncrementAccessCount c s)) = urlsByID s"
    and "urlsByOrig (snd (IncrementAccessCount c s)) = urlsByOrig s"
    and "nextID (snd (IncrementAccessCount c s)) = nextID s"
  using assms by (simp_all add: IncrementAccessCount_present)

lemma GetOriginalURL_invalid:
  "\<not> IsValidBase62 c \<Longrightarrow> GetOriginalURL c s = (([], Some services_ErrInvalidShortCode), s)"
  by (simp add: GetOriginalURL_def)

lemma GetOriginalURL_absent:
  "IsValidBase62 c \<Longrightarrow> urls s c = None \<Longrightarrow>
   GetOriginalURL c s = (([], Some services_ErrURLNotFound), s)"
  by (simp add: GetOriginalURL_def GetByShortCode_def)

lemma GetOriginalURL_present:
  "IsValidBase62 c \<Longrightarrow> urls s c = Some a \<Longrightarrow>
   GetOriginalURL c s =
     ((OriginalURL (heap (snd (IncrementAccessCount c s)) ! a), None),
      snd (IncrementAccessCount c s))"
  by (simp add: GetOriginalURL_def GetByShortCode_def IncrementAccessCount_present)

lemma GetURLInfo_invalid:
  "\<not> IsValidBase62 c \<Longrightarrow> GetURLInfo cfg c s = (None, Some services_ErrInvalidShortCode)"
  by (simp add: GetURLInfo_def)

lemma GetURLInfo_absent:
  "IsValidBase62 c \<Longrightarrow> urls s c = None \<Longrightarrow>
   GetURLInfo cfg c s = (None, Some services_ErrURLNotFound)"
  by (simp add: GetURLInfo_def GetByShortCode_def)

lemma GetURLInfo_present:
  "IsValidBase62 c \<Longrightarrow> urls s c = Some a \<Longrightarrow> snd (GetURLInfo cfg c s) = None"
  by (simp add: GetURLInfo_def GetByShortCode_def Let_def)

lemma GetOriginalURL_error_iff:
  "snd (fst (GetOriginalURL c s)) = Some services_ErrInvalidShortCode \<longleftrightarrow> \<not> IsValidBase62 c"
  "snd (fst (GetOriginalURL c s)) = Some services_ErrURLNotFound \<longleftrightarrow>
     IsValidBase62 c \<and> urls s c = None"
proof -
  show "snd (fst (GetOriginalURL c s)) = Some services_ErrInvalidShortCode \<longleftrightarrow> \<not> IsValidBase62 c"
    by (cases "IsValidBase62 c"; cases "urls s c")
      (simp_all add: GetOriginalURL_invalid GetOriginalURL_absent GetOriginalURL_present)
  show "snd (fst (GetOriginalURL c s)) = Some services_ErrURLNotFound \<longleftrightarrow>
     IsValidBase62 c \<and> urls s c = None"
    by (cases "IsValidBase62 c"; cases "urls s c")
      (simp_all add: GetOriginalURL_invalid GetOriginalURL_absent GetOriginalURL_present)
qed

lemma GetURLInfo_error_iff:
  "snd (GetURLInfo cfg c s) = Some services_ErrInvalidShortCode \<longleftrightarrow> \<not> IsValidBase62 c"
  "snd (GetURLInfo cfg c s) = Some services_ErrURLNotFound \<longleftrightarrow>
     IsValidBase62 c \<and> urls s c = None"
proof -
  show "snd (GetURLInfo cfg c s) = Some services_ErrInvalidShortCode \<longleftrightarrow> \<not> IsValidBase62 c"
    by (cases "IsValidBase62 c"; cases "urls s c")
      (simp_all add: GetURLInfo_invalid GetURLInfo_absent GetURLInfo_present)
  show "snd (GetURLInfo cfg c s) = Some services_ErrURLNotFound \<longleftrightarrow>
     IsValidBase62 c \<and> urls s c = None"
    by (cases "IsValidBase62 c"; cases "urls s c")
      (simp_all add: GetURLInfo_invalid GetURLInfo_absent GetURLInfo_present)
qed

lemma no_ErrURLExists:
  "snd (fst (Save u now s)) \<noteq> Some storage_ErrURLExists"
  "snd (GetByShortCode c s) \<noteq> Some storage_ErrURLExists"
  "snd (GetByID i s) \<noteq> Some storage_ErrURLExists"
  "fst (IncrementAccessCount c s) \<noteq> Some storage_ErrURLExists"
  "snd (fst (GetOriginalURL c s)) \<noteq> Some storage_ErrURLExists"
  "snd (GetURLInfo cfg c s) \<noteq> Some storage_ErrURLExists"
proof -
  show "snd (fst (Save u now s)) \<noteq> Some storage_ErrURLExists"
    using Save_result [of u now s] by auto
  show "snd (GetByShortCode c s) \<noteq> Some storage_ErrURLExists"
    by (simp add: GetByShortCode_def split: option.splits)
  show "snd (GetByID i s) \<noteq> Some storage_ErrURLExists"
    by (simp add: GetByID_def split: option.splits)
  show "fst (IncrementAccessCount c s) \<noteq> Some storage_ErrURLExists"
    by (simp add: IncrementAccessCount_def split: option.splits)
  show "snd (fst (GetOriginalURL c s)) \<noteq> Some storage_ErrURLExists"
    by (cases "IsValidBase62 c"; cases "urls s c")
      (simp_all add: GetOriginalURL_invalid GetOriginalURL_absent GetOriginalURL_present)
  show "snd (GetURLInfo cfg c s) \<noteq> Some storage_ErrURLExists"
    by (cases "IsValidBase62 c"; cases "urls s c")
      (simp_all add: GetURLInfo_invalid GetURLInfo_absent GetURLInfo_present)
qed

lemma Save_returns_record:
  assumes "coherent s"
  shows "\<exists>a. fst (Save u now s) = (Some a, None) \<and> a < length (heap (snd (Save u now s))) \<and>
    OriginalURL (heap (snd (Save u now s)) ! a) = u"
proof (cases "urlsByOrig s u")
  case None
  then show ?thesis by (simp add: Save_new)
next
  case (Some a)
  then show ?thesis
    using coherent_orig_ptr_valid [OF assms Some] by (simp add: Save_existing)
qed

lemma GetStats_fields:
  "dom (GetStats s) = {''total_urls'', ''next_id''}"
  "GetStats s ''total_urls'' = Some (IntVal (int (card (dom (urls s)))))"
  "GetStats s ''next_id'' = Some (Uint64Val (nextID s))"
  by (auto simp add: GetStats_def)

lemma coherent_keys:
  assumes coh: "coherent s"
  shows "urls s c = Some r \<Longrightarrow> ShortCode (heap s ! r) = c"
    and "urlsByID s i = Some r \<Longrightarrow> ID (heap s ! r) = i"
    and "urlsByOrig s u = Some r \<Longrightarrow> OriginalURL (heap s ! r) = u"
proof -
  have rec: "\<And>a. a < length (heap s) \<Longrightarrow>
      urls s (ShortCode (heap s ! a)) = Some a \<and>
      urlsByID s (ID (heap s ! a)) = Some a \<and>
      urlsByOrig s (OriginalURL (heap s ! a)) = Some a"
    using coh unfolding coherent_def by blast
  have doms: "dom (urls s) = ShortCode ` set (heap s)"
    "dom (urlsByID s) = ID ` set (heap s)"
    "dom (urlsByOrig s) = OriginalURL ` set (heap s)"
    using coh by (simp_all add: coherent_def)
  show "ShortCode (heap s ! r) = c" if "urls s c = Some r"
  proof -
    have "c \<in> ShortCode ` set (heap s)"
      using that doms(1) by auto
    then obtain b where "b < length (heap s)" "c = ShortCode (heap s ! b)"
      by (auto simp add: in_set_conv_nth)
    then show ?thesis
      using rec [of b] that by simp
  qed
  show "ID (heap s ! r) = i" if "urlsByID s i = Some r"
  proof -
    have "i \<in> ID ` set (heap s)"
      using that doms(2) by auto
    then obtain b where "b < length (heap s)" "i = ID (heap s ! b)"
      by (auto simp add: in_set_conv_nth)
    then show ?thesis
      using rec [of b] that by simp
  qed
  show "OriginalURL (heap s ! r) = u" if "urlsByOrig s u = Some r"
    using coherent_orig_ptr_valid [OF coh that] by simp
qed

lemma coherent_records:
  assumes coh: "coherent s" and r: "r \<in> ran (urls s)"
  shows "r < length (heap s) \<and>
    urls s (ShortCode (heap s ! r)) = Some r \<and>
    urlsByID s (ID (heap s ! r)) = Some r \<and>
    urlsByOrig s (OriginalURL (heap s ! r)) = Some r \<and>
    ShortCode (heap s ! r) = EncodeBase62 (ID (heap s ! r))"
proof -
  have "r < length (heap s)"
    using r coherent_ran_urls(1) [OF coh] by simp
  then show ?thesis
    using coh unfolding coherent_def by blast
qed

lemma run_example:
  "run [OpSave ''https://x.com'' 5, OpIncrementAccessCount ''1'', OpGetByID 1,
        OpSave ''https://x.com'' 9] NewMemoryStorage =
   \<lparr>heap = [\<lparr>ID = 1, OriginalURL = ''https://x.com'', ShortCode = ''1'', CreatedAt = 5,
              AccessCount = 1\<rparr>],
    urls = [''1'' \<mapsto> 0], urlsByID = [1 \<mapsto> 0], urlsByOrig = [''https://x.com'' \<mapsto> 0],
    nextID = 2\<rparr>"
  by (simp add: run_def Save_def NewMemoryStorage_def IncrementAccessCount_def EncodeBase62_1)

section \<open>The store and the service: the claims\<close>

text \<open>
  C3. \<open>Save\<close> on a URL that the by-original index already holds returns the stored
  record's pointer and leaves the whole store as it was (no id used, no code made,
  no record added). That pointer and the record's id, URL, code and creation time
  survive every later run of operations. On a store that satisfies the invariant,
  two calls on a URL not yet stored return the same pointer, the second changes
  nothing, the record keeps the first call's creation time, and the number of
  records grows by exactly one.
\<close>

theorem C3_Save_idempotent:
  "(urlsByOrig s u = Some a \<longrightarrow> Save u now s = ((Some a, None), s)) \<and>
   (urlsByOrig s u = Some a \<and> a < length (heap s) \<longrightarrow>
      urlsByOrig (run ops s) u = Some a \<and>
      ID (heap (run ops s) ! a) = ID (heap s ! a) \<and>
      ShortCode (heap (run ops s) ! a) = ShortCode (heap s ! a) \<and>
      CreatedAt (heap (run ops s) ! a) = CreatedAt (heap s ! a)) \<and>
   (coherent s \<and> urlsByOrig s u = None \<longrightarrow>
      fst (Save u t1 s) = (Some (length (heap s)), None) \<and>
      Save u t2 (snd (Save u t1 s)) = ((Some (length (heap s)), None), snd (Save u t1 s)) \<and>
      heap (snd (Save u t1 s)) ! length (heap s) =
        \<lparr>ID = nextID s, OriginalURL = u, ShortCode = EncodeBase62 (nextID s),
          CreatedAt = t1, AccessCount = 0\<rparr> \<and>
      nextID (snd (Save u t1 s)) = nextID s + 1 \<and>
      card (dom (urls (snd (Save u t2 (snd (Save u t1 s)))))) = card (dom (urls s)) + 1)"
proof (intro conjI impI)
  assume "urlsByOrig s u = Some a"
  then show "Save u now s = ((Some a, None), s)"
    by (rule Save_existing)
next
  assume h: "urlsByOrig s u = Some a \<and> a < length (heap s)"
  then have st: "urlsByOrig (run ops s) u = Some a \<and> a < length (heap (run ops s)) \<and>
    ID (heap (run ops s) ! a) = ID (heap s ! a) \<and>
    OriginalURL (heap (run ops s) ! a) = OriginalURL (heap s ! a) \<and>
    ShortCode (heap (run ops s) ! a) = ShortCode (heap s ! a) \<and>
    CreatedAt (heap (run ops s) ! a) = CreatedAt (heap s ! a)"
    by (intro record_stable_run) simp_all
  show "urlsByOrig (run ops s) u = Some a" using st by blast
  show "ID (heap (run ops s) ! a) = ID (heap s ! a)" using st by blast
  show "ShortCode (heap (run ops s) ! a) = ShortCode (heap s ! a)" using st by blast
  show "CreatedAt (heap (run ops s) ! a) = CreatedAt (heap s ! a)" using st by blast
next
  assume h: "coherent s \<and> urlsByOrig s u = None"
  then have coh: "coherent s" and new: "urlsByOrig s u = None"
    by simp_all
  show "fst (Save u t1 s) = (Some (length (heap s)), None)"
    by (rule Save_twice_fresh(1) [OF coh new])
  show twice: "Save u t2 (snd (Save u t1 s)) = ((Some (length (heap s)), None), snd (Save u t1 s))"
    by (rule Save_twice_fresh(2) [OF coh new])
  show "heap (snd (Save u t1 s)) ! length (heap s) =
        \<lparr>ID = nextID s, OriginalURL = u, ShortCode = EncodeBase62 (nextID s),
          CreatedAt = t1, AccessCount = 0\<rparr>"
    by (rule Save_twice_fresh(3) [OF coh new])
  show "nextID (snd (Save u t1 s)) = nextID s + 1"
    by (rule Save_twice_fresh(4) [OF coh new])
  show "card (dom (urls (snd (Save u t2 (snd (Save u t1 s)))))) = card (dom (urls s)) + 1"
    using Save_twice_fresh(5) [OF coh new, of t1] by (simp only: twice snd_conv)
qed

theorem C3_Save_idempotent_witness:
  "coherent NewMemoryStorage \<and> urlsByOrig NewMemoryStorage ''https://x.com'' = None \<and>
   urlsByOrig (snd (Save ''https://x.com'' 5 NewMemoryStorage)) ''https://x.com'' = Some 0 \<and>
   0 < length (heap (snd (Save ''https://x.com'' 5 NewMemoryStorage))) \<and>
   Save ''https://x.com'' 9 (snd (Save ''https://x.com'' 5 NewMemoryStorage)) =
     ((Some 0, None), snd (Save ''https://x.com'' 5 NewMemoryStorage)) \<and>
   CreatedAt (heap (run [OpIncrementAccessCount ''1'', OpSave ''https://y.com'' 6]
       (snd (Save ''https://x.com'' 5 NewMemoryStorage))) ! 0) =
     CreatedAt (heap (snd (Save ''https://x.com'' 5 NewMemoryStorage)) ! 0) \<and>
   card (dom (urls (snd (Save ''https://x.com'' 9 (snd (Save ''https://x.com'' 5 NewMemoryStorage))))))
     = card (dom (urls NewMemoryStorage)) + 1"
proof -
  let ?s1 = "snd (Save ''https://x.com'' 5 NewMemoryStorage)"
  have h1: "coherent NewMemoryStorage"
    by (rule coherent_New)
  have h2: "urlsByOrig NewMemoryStorage ''https://x.com'' = None"
    by (simp add: NewMemoryStorage_def)
  have h3: "urlsByOrig ?s1 ''https://x.com'' = Some 0"
    by (simp add: Save_def NewMemoryStorage_def)
  have h4: "0 < length (heap ?s1)"
    by (simp add: Save_def NewMemoryStorage_def)
  have l0: "length (heap NewMemoryStorage) = 0"
    by (simp add: NewMemoryStorage_def)
  have A: "Save ''https://x.com'' 9 ?s1 = ((Some (length (heap NewMemoryStorage)), None), ?s1)"
    and B: "card (dom (urls (snd (Save ''https://x.com'' 9 ?s1)))) =
      card (dom (urls NewMemoryStorage)) + 1"
    using C3_Save_idempotent [of NewMemoryStorage "''https://x.com''" 0 9 "[]" 5 9] h1 h2
    by blast+
  have C: "CreatedAt (heap (run [OpIncrementAccessCount ''1'', OpSave ''https://y.com'' 6] ?s1) ! 0)
      = CreatedAt (heap ?s1 ! 0)"
    using C3_Save_idempotent [of ?s1 "''https://x.com''" 0 9
        "[OpIncrementAccessCount ''1'', OpSave ''https://y.com'' 6]" 5 9] h3 h4
    by blast
  show ?thesis
    using h1 h2 h3 h4 A [unfolded l0] B C by blast
qed

text \<open>
  C4, as stated: the snapshot of \<open>GetStats\<close> has a field for the total of the
  access counts. On a store with one record that was accessed once the snapshot has
  exactly the two keys \<open>total_urls\<close> and \<open>next_id\<close>.
\<close>

theorem C4_GetStats_two_fields:
  "AccessCount (heap (run [OpSave ''https://x.com'' 5, OpIncrementAccessCount ''1'']
       NewMemoryStorage) ! 0) = 1 \<and>
   dom (GetStats (run [OpSave ''https://x.com'' 5, OpIncrementAccessCount ''1'']
       NewMemoryStorage)) = {''total_urls'', ''next_id''} \<and>
   GetStats (run [OpSave ''https://x.com'' 5, OpIncrementAccessCount ''1''] NewMemoryStorage)
     ''total_accesses'' = None"
  by (auto simp add: run_def Save_def NewMemoryStorage_def IncrementAccessCount_def
      EncodeBase62_1 GetStats_def)

text \<open>
  C4, amended: \<open>GetStats\<close> returns a snapshot of one store state with exactly two
  fields: \<open>total_urls\<close>, the number of entries of the by-code index, and \<open>next_id\<close>,
  the id counter. It has no field for the sum of the access counts.
\<close>

theorem C4_GetStats_snapshot:
  "dom (GetStats s) = {''total_urls'', ''next_id''} \<and>
   GetStats s ''total_urls'' = Some (IntVal (int (card (dom (urls s))))) \<and>
   GetStats s ''next_id'' = Some (Uint64Val (nextID s))"
  using GetStats_fields [of s] by simp

text \<open>
  C5. On a new store, as long as fewer than \<open>2 ^ 64 - 1\<close> calls are made, the
  records that a sequence of \<open>Save\<close> calls creates are as many as the distinct URLs
  of the sequence, the \<open>k\<close>-th of them has id \<open>k\<close> (the list is indexed from 0), each
  id is greater than all ids given before, and no id is given twice.
\<close>

theorem C5_ids_sequential:
  assumes "length us < 2 ^ 64 - 1"
  shows "length (created_ids us NewMemoryStorage) = card (fst ` set us) \<and>
    (\<forall>k < length (created_ids us NewMemoryStorage).
       unat (created_ids us NewMemoryStorage ! k) = k + 1) \<and>
    sorted_wrt (<) (created_ids us NewMemoryStorage) \<and>
    distinct (created_ids us NewMemoryStorage)"
  using created_ids_props [OF assms] by simp

theorem C5_ids_sequential_witness:
  "length [(''https://x.com'', 5), (''https://y.com'', 6), (''https://x.com'', 7 :: Time)]
     < 2 ^ 64 - 1 \<and>
   created_ids [(''https://x.com'', 5), (''https://y.com'', 6), (''https://x.com'', 7)]
     NewMemoryStorage = [1, 2] \<and>
   sorted_wrt (<) (created_ids [(''https://x.com'', 5), (''https://y.com'', 6),
     (''https://x.com'', 7)] NewMemoryStorage) \<and>
   distinct (created_ids [(''https://x.com'', 5), (''https://y.com'', 6),
     (''https://x.com'', 7)] NewMemoryStorage)"
proof -
  let ?us = "[(''https://x.com'', 5), (''https://y.com'', 6), (''https://x.com'', 7 :: Time)]"
  have h: "length ?us < 2 ^ 64 - 1"
    by simp
  have e: "created_ids ?us NewMemoryStorage = [1, 2]"
    by (simp add: Save_def NewMemoryStorage_def EncodeBase62_1 EncodeBase62_2)
  show ?thesis
    using h e C5_ids_sequential [OF h] by blast
qed

text \<open>
  C6. If the by-code index holds a (valid) pointer under \<open>code\<close>, then
  \<open>IncrementAccessCount\<close> returns no error, adds 1 to the access count of that
  record and changes nothing else: not the record's id, URL, code or creation time,
  no other record, none of the three maps, not the id counter. \<open>K\<close> calls in a row
  add \<open>K\<close>, so a count that starts at 0 is \<open>K\<close> afterwards (for \<open>K\<close> below \<open>2 ^ 64\<close>).
  If the code is absent the call returns \<open>ErrURLNotFound\<close> and the same store.
\<close>

theorem C6_IncrementAccessCount_frame:
  "(urls s c = Some a \<and> a < length (heap s) \<longrightarrow>
      fst (IncrementAccessCount c s) = None \<and>
      AccessCount (heap (snd (IncrementAccessCount c s)) ! a) = AccessCount (heap s ! a) + 1 \<and>
      ID (heap (snd (IncrementAccessCount c s)) ! a) = ID (heap s ! a) \<and>
      OriginalURL (heap (snd (IncrementAccessCount c s)) ! a) = OriginalURL (heap s ! a) \<and>
      ShortCode (heap (snd (IncrementAccessCount c s)) ! a) = ShortCode (heap s ! a) \<and>
      CreatedAt (heap (snd (IncrementAccessCount c s)) ! a) = CreatedAt (heap s ! a) \<and>
      length (heap (snd (IncrementAccessCount c s))) = length (heap s) \<and>
      (\<forall>b. b \<noteq> a \<longrightarrow> heap (snd (IncrementAccessCount c s)) ! b = heap s ! b) \<and>
      urls (snd (IncrementAccessCount c s)) = urls s \<and>
      urlsByID (snd (IncrementAccessCount c s)) = urlsByID s \<and>
      urlsByOrig (snd (IncrementAccessCount c s)) = urlsByOrig s \<and>
      nextID (snd (IncrementAccessCount c s)) = nextID s \<and>
      AccessCount (heap (increment_times K c s) ! a) = AccessCount (heap s ! a) + of_nat K \<and>
      (AccessCount (heap s ! a) = 0 \<and> K < 2 ^ 64 \<longrightarrow>
         unat (AccessCount (heap (increment_times K c s) ! a)) = K)) \<and>
   (urls s c = None \<longrightarrow> IncrementAccessCount c s = (Some storage_ErrURLNotFound, s))"
proof (intro conjI impI allI)
  assume "urls s c = None"
  then show "IncrementAccessCount c s = (Some storage_ErrURLNotFound, s)"
    by (rule IncrementAccessCount_absent)
next
  assume h: "urls s c = Some a \<and> a < length (heap s)"
  then have p: "urls s c = Some a" and v: "a < length (heap s)"
    by simp_all
  show "fst (IncrementAccessCount c s) = None"
    by (rule IncrementAccessCount_frame(1) [OF p v])
  show "AccessCount (heap (snd (IncrementAccessCount c s)) ! a) = AccessCount (heap s ! a) + 1"
    by (rule IncrementAccessCount_frame(2) [OF p v])
  show "ID (heap (snd (IncrementAccessCount c s)) ! a) = ID (heap s ! a)"
    by (rule IncrementAccessCount_frame(3) [OF p v])
  show "OriginalURL (heap (snd (IncrementAccessCount c s)) ! a) = OriginalURL (heap s ! a)"
    by (rule IncrementAccessCount_frame(4) [OF p v])
  show "ShortCode (heap (snd (IncrementAccessCount c s)) ! a) = ShortCode (heap s ! a)"
    by (rule IncrementAccessCount_frame(5) [OF p v])
  show "CreatedAt (heap (snd (IncrementAccessCount c s)) ! a) = CreatedAt (heap s ! a)"
    by (rule IncrementAccessCount_frame(6) [OF p v])
  show "length (heap (snd (IncrementAccessCount c s))) = length (heap s)"
    by (rule IncrementAccessCount_frame(7) [OF p v])
  show "urls (snd (IncrementAccessCount c s)) = urls s"
    by (rule IncrementAccessCount_frame(9) [OF p v])
  show "urlsByID (snd (IncrementAccessCount c s)) = urlsByID s"
    by (rule IncrementAccessCount_frame(10) [OF p v])
  show "urlsByOrig (snd (IncrementAccessCount c s)) = urlsByOrig s"
    by (rule IncrementAccessCount_frame(11) [OF p v])
  show "nextID (snd (IncrementAccessCount c s)) = nextID s"
    by (rule IncrementAccessCount_frame(12) [OF p v])
  show "AccessCount (heap (increment_times K c s) ! a) = AccessCount (heap s ! a) + of_nat K"
    using increment_times_count [OF p v, of K] by blast
  show "heap (snd (IncrementAccessCount c s)) ! b = heap s ! b" if "b \<noteq> a" for b
    using that by (rule IncrementAccessCount_frame(8) [OF p v])
  show "unat (AccessCount (heap (increment_times K c s) ! a)) = K"
    if "AccessCount (heap s ! a) = 0 \<and> K < 2 ^ 64"
    using that increment_times_from_zero [OF p v, of K] by blast
qed

theorem C6_IncrementAccessCount_frame_witness:
  "urls (snd (Save ''https://x.com'' 5 NewMemoryStorage)) ''1'' = Some 0 \<and>
   0 < length (heap (snd (Save ''https://x.com'' 5 NewMemoryStorage))) \<and>
   AccessCount (heap (snd (Save ''https://x.com'' 5 NewMemoryStorage)) ! 0) = 0 \<and>
   (3 :: nat) < 2 ^ 64 \<and>
   unat (AccessCount (heap (increment_times 3 ''1''
       (snd (Save ''https://x.com'' 5 NewMemoryStorage))) ! 0)) = 3 \<and>
   urls (snd (Save ''https://x.com'' 5 NewMemoryStorage)) ''2'' = None \<and>
   IncrementAccessCount ''2'' (snd (Save ''https://x.com'' 5 NewMemoryStorage)) =
     (Some storage_ErrURLNotFound, snd (Save ''https://x.com'' 5 NewMemoryStorage))"
proof -
  let ?s1 = "snd (Save ''https://x.com'' 5 NewMemoryStorage)"
  have h1: "urls ?s1 ''1'' = Some 0"
    by (simp add: Save_def NewMemoryStorage_def EncodeBase62_1)
  have h2: "0 < length (heap ?s1)"
    by (simp add: Save_def NewMemoryStorage_def)
  have h3: "AccessCount (heap ?s1 ! 0) = 0"
    by (simp add: Save_def NewMemoryStorage_def)
  have h4: "(3 :: nat) < 2 ^ 64"
    by simp
  have h5: "urls ?s1 ''2'' = None"
    by (simp add: Save_def NewMemoryStorage_def EncodeBase62_1)
  show ?thesis
    using h1 h2 h3 h4 h5 C6_IncrementAccessCount_frame [of ?s1 "''1''" 0 3]
      C6_IncrementAccessCount_frame [of ?s1 "''2''" 0 3]
    by blast
qed

text \<open>
  C7. A code that fails \<open>IsValidBase62\<close> makes \<open>GetOriginalURL\<close> and \<open>GetURLInfo\<close>
  return \<open>ErrInvalidShortCode\<close> (with the empty string, or a nil answer). A valid
  code that the by-code index does not hold makes the store return a nil pointer
  with its \<open>ErrURLNotFound\<close> and the two service calls return the service's
  \<open>ErrURLNotFound\<close>; an id that the by-id index does not hold makes \<open>GetByID\<close> return
  a nil pointer with \<open>ErrURLNotFound\<close>. Each of the two service errors is returned in
  exactly its own case, and they are different values.
\<close>

theorem C7_lookup_errors_distinct:
  "(\<not> IsValidBase62 c \<longrightarrow>
      GetOriginalURL c s = (([], Some services_ErrInvalidShortCode), s) \<and>
      GetURLInfo cfg c s = (None, Some services_ErrInvalidShortCode)) \<and>
   (IsValidBase62 c \<and> urls s c = None \<longrightarrow>
      GetByShortCode c s = (None, Some storage_ErrURLNotFound) \<and>
      GetOriginalURL c s = (([], Some services_ErrURLNotFound), s) \<and>
      GetURLInfo cfg c s = (None, Some services_ErrURLNotFound)) \<and>
   (urlsByID s i = None \<longrightarrow> GetByID i s = (None, Some storage_ErrURLNotFound)) \<and>
   (snd (fst (GetOriginalURL c s)) = Some services_ErrInvalidShortCode
      \<longleftrightarrow> \<not> IsValidBase62 c) \<and>
   (snd (fst (GetOriginalURL c s)) = Some services_ErrURLNotFound
      \<longleftrightarrow> IsValidBase62 c \<and> urls s c = None) \<and>
   (snd (GetURLInfo cfg c s) = Some services_ErrInvalidShortCode \<longleftrightarrow> \<not> IsValidBase62 c) \<and>
   (snd (GetURLInfo cfg c s) = Some services_ErrURLNotFound
      \<longleftrightarrow> IsValidBase62 c \<and> urls s c = None) \<and>
   services_ErrInvalidShortCode \<noteq> services_ErrURLNotFound \<and>
   services_ErrInvalidShortCode \<noteq> storage_ErrURLNotFound"
proof (intro conjI impI)
  assume "\<not> IsValidBase62 c"
  then show "GetOriginalURL c s = (([], Some services_ErrInvalidShortCode), s)"
    and "GetURLInfo cfg c s = (None, Some services_ErrInvalidShortCode)"
    by (simp_all add: GetOriginalURL_invalid GetURLInfo_invalid)
next
  assume h: "IsValidBase62 c \<and> urls s c = None"
  then show "GetByShortCode c s = (None, Some storage_ErrURLNotFound)"
    by (simp add: GetByShortCode_def)
  show "GetOriginalURL c s = (([], Some services_ErrURLNotFound), s)"
    using h by (simp add: GetOriginalURL_absent)
  show "GetURLInfo cfg c s = (None, Some services_ErrURLNotFound)"
    using h by (simp add: GetURLInfo_absent)
next
  assume "urlsByID s i = None"
  then show "GetByID i s = (None, Some storage_ErrURLNotFound)"
    by (simp add: GetByID_def)
next
  show "snd (fst (GetOriginalURL c s)) = Some services_ErrInvalidShortCode
      \<longleftrightarrow> \<not> IsValidBase62 c"
    by (rule GetOriginalURL_error_iff(1))
  show "snd (fst (GetOriginalURL c s)) = Some services_ErrURLNotFound
      \<longleftrightarrow> IsValidBase62 c \<and> urls s c = None"
    by (rule GetOriginalURL_error_iff(2))
  show "snd (GetURLInfo cfg c s) = Some services_ErrInvalidShortCode \<longleftrightarrow> \<not> IsValidBase62 c"
    by (rule GetURLInfo_error_iff(1))
  show "snd (GetURLInfo cfg c s) = Some services_ErrURLNotFound
      \<longleftrightarrow> IsValidBase62 c \<and> urls s c = None"
    by (rule GetURLInfo_error_iff(2))
  show "services_ErrInvalidShortCode \<noteq> services_ErrURLNotFound"
    by simp
  show "services_ErrInvalidShortCode \<noteq> storage_ErrURLNotFound"
    by simp
qed

theorem C7_lookup_errors_distinct_witness:
  "\<not> IsValidBase62 ''invalid!'' \<and>
   GetOriginalURL ''invalid!'' NewMemoryStorage =
     (([], Some services_ErrInvalidShortCode), NewMemoryStorage) \<and>
   IsValidBase62 ''nonexistent'' \<and> urls NewMemoryStorage ''nonexistent'' = None \<and>
   GetOriginalURL ''nonexistent'' NewMemoryStorage =
     (([], Some services_ErrURLNotFound), NewMemoryStorage) \<and>
   GetURLInfo \<lparr>Port = ''8080'', BaseURL = ''http://localhost:8080'', LogLevel = ''info''\<rparr>
       ''nonexistent'' NewMemoryStorage = (None, Some services_ErrURLNotFound) \<and>
   urlsByID NewMemoryStorage 99999 = None \<and>
   GetByID 99999 NewMemoryStorage = (None, Some storage_ErrURLNotFound)"
proof -
  have h1: "\<not> IsValidBase62 ''invalid!''"
    by (simp add: IsValidBase62_def is_base62_rune_def)
  have h2: "IsValidBase62 ''nonexistent''"
    by (simp add: IsValidBase62_def is_base62_rune_def)
  have h3: "urls NewMemoryStorage ''nonexistent'' = None"
    by (simp add: NewMemoryStorage_def)
  have h4: "urlsByID NewMemoryStorage 99999 = None"
    by (simp add: NewMemoryStorage_def)
  show ?thesis
    using h1 h2 h3 h4
      C7_lookup_errors_distinct [of "''invalid!''" NewMemoryStorage
        "\<lparr>Port = ''8080'', BaseURL = ''http://localhost:8080'', LogLevel = ''info''\<rparr>" 99999]
      C7_lookup_errors_distinct [of "''nonexistent''" NewMemoryStorage
        "\<lparr>Port = ''8080'', BaseURL = ''http://localhost:8080'', LogLevel = ''info''\<rparr>" 99999]
    by blast
qed

text \<open>
  C9. \<open>Save\<close> returns a pointer and a nil error on every store and every string. On
  a store that satisfies the invariant the pointer is to a stored record of that
  URL. No operation of the store or of the service returns \<open>ErrURLExists\<close>.
\<close>

theorem C9_Save_never_fails:
  "(\<exists>a. fst (Save u now s) = (Some a, None)) \<and>
   (coherent s \<longrightarrow>
      (\<exists>a. fst (Save u now s) = (Some a, None) \<and>
           a < length (heap (snd (Save u now s))) \<and>
           OriginalURL (heap (snd (Save u now s)) ! a) = u)) \<and>
   snd (fst (Save u now s)) \<noteq> Some storage_ErrURLExists \<and>
   snd (GetByShortCode c s) \<noteq> Some storage_ErrURLExists \<and>
   snd (GetByID i s) \<noteq> Some storage_ErrURLExists \<and>
   fst (IncrementAccessCount c s) \<noteq> Some storage_ErrURLExists \<and>
   snd (fst (GetOriginalURL c s)) \<noteq> Some storage_ErrURLExists \<and>
   snd (GetURLInfo cfg c s) \<noteq> Some storage_ErrURLExists"
  using Save_result [of u now s] Save_returns_record [of s u now]
    no_ErrURLExists
  by blast

theorem C9_Save_never_fails_witness:
  "coherent NewMemoryStorage \<and>
   (\<exists>a. fst (Save [] 5 NewMemoryStorage) = (Some a, None) \<and>
        a < length (heap (snd (Save [] 5 NewMemoryStorage))) \<and>
        OriginalURL (heap (snd (Save [] 5 NewMemoryStorage)) ! a) = []) \<and>
   snd (fst (Save [] 5 NewMemoryStorage)) \<noteq> Some storage_ErrURLExists"
  using coherent_New C9_Save_never_fails [of "[]" 5 NewMemoryStorage]
  by blast

text \<open>
  C10. On the store reached from a new one by any run of fewer than \<open>2 ^ 64 - 1\<close>
  operations (\<open>Save\<close>, \<open>GetByShortCode\<close>, \<open>GetByID\<close>, \<open>IncrementAccessCount\<close>): the
  invariant \<open>coherent\<close> holds; the three maps hold the same pointers; each of them points to a record that every map
  holds under the record's own key (code, id, URL), and the code is the encoding of
  the id; a key of a map is the key of the record it leads to; the ids in use are
  exactly those from 1 up to \<open>nextID - 1\<close>; and \<open>nextID\<close> is the number of records
  plus 1, the three maps having equally many keys.
\<close>

theorem C10_index_coherence:
  assumes "length ops < 2 ^ 64 - 1" and "s = run ops NewMemoryStorage"
  shows "coherent s \<and>
    ran (urls s) = ran (urlsByID s) \<and> ran (urlsByID s) = ran (urlsByOrig s) \<and>
    (\<forall>r \<in> ran (urls s).
       r < length (heap s) \<and>
       urls s (ShortCode (heap s ! r)) = Some r \<and>
       urlsByID s (ID (heap s ! r)) = Some r \<and>
       urlsByOrig s (OriginalURL (heap s ! r)) = Some r \<and>
       ShortCode (heap s ! r) = EncodeBase62 (ID (heap s ! r))) \<and>
    (\<forall>c r. urls s c = Some r \<longrightarrow> ShortCode (heap s ! r) = c) \<and>
    (\<forall>i r. urlsByID s i = Some r \<longrightarrow> ID (heap s ! r) = i) \<and>
    (\<forall>u r. urlsByOrig s u = Some r \<longrightarrow> OriginalURL (heap s ! r) = u) \<and>
    dom (urlsByID s) = {i. 1 \<le> i \<and> i < nextID s} \<and>
    unat (nextID s) = card (dom (urls s)) + 1 \<and>
    card (dom (urlsByID s)) = card (dom (urls s)) \<and>
    card (dom (urlsByOrig s)) = card (dom (urls s))"
proof -
  have coh: "coherent s"
    using coherent_run [OF assms(1)] assms(2) by simp
  have "unat (nextID s) = length (heap s) + 1"
    using coh by (simp add: coherent_def)
  then have "unat (nextID s) = card (dom (urls s)) + 1"
    by (simp only: coherent_card(1) [OF coh])
  moreover have "card (dom (urlsByID s)) = card (dom (urls s))"
    "card (dom (urlsByOrig s)) = card (dom (urls s))"
    by (simp_all only: coherent_card [OF coh])
  moreover have "ran (urls s) = ran (urlsByID s)" "ran (urlsByID s) = ran (urlsByOrig s)"
    by (simp_all only: coherent_ran_urls [OF coh])
  ultimately show ?thesis
    using coh coherent_records [OF coh] coherent_keys [OF coh] coherent_ids [OF coh]
    by blast
qed

theorem C10_index_coherence_witness:
  "length [OpSave ''https://x.com'' 5, OpIncrementAccessCount ''1'', OpGetByID 1,
       OpSave ''https://x.com'' 9] < 2 ^ 64 - 1 \<and>
   \<lparr>heap = [\<lparr>ID = 1, OriginalURL = ''https://x.com'', ShortCode = ''1'', CreatedAt = 5,
              AccessCount = 1\<rparr>],
    urls = [''1'' \<mapsto> 0], urlsByID = [1 \<mapsto> 0], urlsByOrig = [''https://x.com'' \<mapsto> 0],
    nextID = 2\<rparr> =
     run [OpSave ''https://x.com'' 5, OpIncrementAccessCount ''1'', OpGetByID 1,
       OpSave ''https://x.com'' 9] NewMemoryStorage \<and>
   dom [(1 :: uint64) \<mapsto> (0 :: nat)] = {i. 1 \<le> i \<and> i < 2} \<and>
   unat (2 :: uint64) = card (dom [''1'' \<mapsto> (0 :: nat)]) + 1"
proof -
  let ?ops = "[OpSave ''https://x.com'' 5, OpIncrementAccessCount ''1'', OpGetByID 1,
       OpSave ''https://x.com'' 9]"
  let ?s = "\<lparr>heap = [\<lparr>ID = 1, OriginalURL = ''https://x.com'', ShortCode = ''1'', CreatedAt = 5,
              AccessCount = 1\<rparr>],
    urls = [''1'' \<mapsto> 0], urlsByID = [1 \<mapsto> 0], urlsByOrig = [''https://x.com'' \<mapsto> 0],
    nextID = 2\<rparr>"
  have h1: "length ?ops < 2 ^ 64 - 1"
    by simp
  have h2: "?s = run ?ops NewMemoryStorage"
    by (rule run_example [symmetric])
  have "dom (urlsByID ?s) = {i. 1 \<le> i \<and> i < nextID ?s}"
    and "unat (nextID ?s) = card (dom (urls ?s)) + 1"
    using C10_index_coherence [OF h1 h2] by blast+
  then have "dom [(1 :: uint64) \<mapsto> (0 :: nat)] = {i. 1 \<le> i \<and> i < 2}"
    and "unat (2 :: uint64) = card (dom [''1'' \<mapsto> (0 :: nat)]) + 1"
    by (simp_all only: MemoryStorage.select_convs)
  then show ?thesis
    using h1 h2 by blast
qed

end
